theory Spec2Isabelle
  imports Complex_Main
begin

section \<open>JavaScript values used by the pipeline\<close>

text \<open>
  The source is \<^verbatim>\<open>src/index.ts\<close>, present in two successive variants (called the first
  and the second variant below; definitions that differ carry the suffix \<open>_v1\<close> or \<open>_v2\<close>).

  A JavaScript number is an IEEE 754 double. It is modelled by \<open>number\<close>: \<open>NaN\<close>, the two
  infinities, negative zero, and \<open>Finite q\<close> for the double whose exact value is the
  rational \<open>q\<close> (positive zero is \<open>Finite 0\<close>). The operations below only produce values
  \<open>Finite q\<close> with \<open>q\<close> representable, since every result goes through \<open>round_double\<close>.
\<close>

datatype number = NaN | PosInfinity | NegInfinity | NegZero | Finite rat

text \<open>The number of binary digits of a positive integer.\<close>

function bits :: "int \<Rightarrow> int" where
  "bits n = (if n \<le> 0 then 0 else 1 + bits (n div 2))"
  by pat_completeness auto
termination
  by (relation "measure nat") auto

declare bits.simps [simp del]

definition pow2 :: "int \<Rightarrow> rat" where
  "pow2 k = (if 0 \<le> k then 2 ^ nat k else 1 / 2 ^ nat (- k))"

text \<open>
  The integer part of the binary logarithm of a positive rational, from the bit lengths
  of its numerator and denominator.
\<close>

definition floor_log2 :: "rat \<Rightarrow> int" where
  "floor_log2 q =
     (let k = bits (fst (quotient_of q)) - bits (snd (quotient_of q))
      in if pow2 k \<le> q then k else k - 1)"

text \<open>The integer nearest to \<open>n / d\<close> (for \<open>d > 0\<close>), a tie going to the even one.\<close>

definition roundTiesToEven :: "int \<Rightarrow> int \<Rightarrow> int" where
  "roundTiesToEven n d =
     (let f = n div d; r = n mod d
      in if 2 * r < d then f else if d < 2 * r then f + 1 else if even f then f else f + 1)"

text \<open>
  The double nearest to a rational (binary64, round to nearest, ties to even): the
  exponent \<open>e\<close> of the binade of \<open>q\<close>, kept within the exponents -1022 (which the
  subnormals share) to 1023 of the format; the significand
  \<open>m\<close> in units of \<open>pow2 (e - 52)\<close>; overflow to an infinity from \<open>pow2 1024\<close> on,
  underflow to a zero of the sign of \<open>q\<close>.
\<close>

definition round_double :: "rat \<Rightarrow> number" where
  "round_double q =
     (if q = 0 then Finite 0
      else
        let e = min 1023 (max (floor_log2 \<bar>q\<bar>) (- 1022));
            s = 52 - e;
            m = (if 0 \<le> s
                 then roundTiesToEven (fst (quotient_of q) * 2 ^ nat s) (snd (quotient_of q))
                 else roundTiesToEven (fst (quotient_of q)) (snd (quotient_of q) * 2 ^ nat (- s)));
            r = of_int m * pow2 (- s)
        in if pow2 1024 \<le> \<bar>r\<bar> then (if q < 0 then NegInfinity else PosInfinity)
           else if m = 0 then (if q < 0 then NegZero else Finite 0)
           else Finite r)"

text \<open>
  \<open>+\<close> on numbers: the exact sum of two finite doubles, rounded; an exact sum of zero is
  positive zero, and negative zero is neutral except with itself. The literal \<open>0\<close> is
  positive zero.
\<close>

instantiation number :: "{zero, plus}"
begin

definition zero_number :: number where
  "zero_number = Finite 0"

definition plus_number :: "number \<Rightarrow> number \<Rightarrow> number" where
  "plus_number a b =
     (case a of
        NaN \<Rightarrow> NaN
      | PosInfinity \<Rightarrow> (case b of NaN \<Rightarrow> NaN | NegInfinity \<Rightarrow> NaN | _ \<Rightarrow> PosInfinity)
      | NegInfinity \<Rightarrow> (case b of NaN \<Rightarrow> NaN | PosInfinity \<Rightarrow> NaN | _ \<Rightarrow> NegInfinity)
      | NegZero \<Rightarrow> b
      | Finite x \<Rightarrow>
          (case b of NegZero \<Rightarrow> Finite x | Finite y \<Rightarrow> round_double (x + y) | _ \<Rightarrow> b))"

instance ..

end

text \<open>
  The values that reach \<open>orZero\<close> at run time: a string cell, a number, or \<open>undefined\<close>
  (a destructured cell that the row does not have).
\<close>

datatype jsvalue = Undefined | Num number | Str string

subsection \<open>\<open>Number(string)\<close>: the StringToNumber grammar of ECMAScript\<close>

text \<open>
  Strings are sequences of 8-bit characters here; the white space of the grammar is
  restricted accordingly (TAB, LF, VT, FF, CR, SP, NBSP). The mathematical value of a
  literal is rounded to the nearest double (for a literal of more than 20 significant
  digits ECMAScript also allows an implementation to round from its first 20 digits).
\<close>

definition isStrWhiteSpaceChar :: "char \<Rightarrow> bool" where
  "isStrWhiteSpaceChar c \<longleftrightarrow> (of_char c :: nat) \<in> {9, 10, 11, 12, 13, 32, 160}"

definition trim :: "string \<Rightarrow> string" where
  "trim s = rev (dropWhile isStrWhiteSpaceChar (rev (dropWhile isStrWhiteSpaceChar s)))"

definition isDecimalDigit :: "char \<Rightarrow> bool" where
  "isDecimalDigit c \<longleftrightarrow> c \<in> set ''0123456789''"

definition digitValue :: "char \<Rightarrow> int" where
  "digitValue c =
     (if isDecimalDigit c then of_char c - 48
      else if c \<in> set ''abcdef'' then of_char c - 87
      else of_char c - 55)"

definition isDigitOf :: "int \<Rightarrow> char \<Rightarrow> bool" where
  "isDigitOf radix c \<longleftrightarrow>
     (isDecimalDigit c \<or> c \<in> set ''abcdefABCDEF'') \<and> digitValue c < radix"

definition digitsValue :: "int \<Rightarrow> string \<Rightarrow> int" where
  "digitsValue radix ds = foldl (\<lambda>a c. a * radix + digitValue c) 0 ds"

definition DecimalDigits :: "string \<Rightarrow> bool" where
  "DecimalDigits ds \<longleftrightarrow> ds \<noteq> [] \<and> list_all isDecimalDigit ds"

text \<open>The exponent part, absent (exponent 0) or \<open>e\<close>/\<open>E\<close> and a signed integer.\<close>

definition ExponentPart :: "string \<Rightarrow> int option" where
  "ExponentPart s =
     (case s of
        [] \<Rightarrow> Some 0
      | c # r \<Rightarrow>
          if c \<in> set ''eE'' then
            (case r of
               [] \<Rightarrow> None
             | d # ds \<Rightarrow>
                 if d = CHR ''+'' then
                   (if DecimalDigits ds then Some (digitsValue 10 ds) else None)
                 else if d = CHR ''-'' then
                   (if DecimalDigits ds then Some (- digitsValue 10 ds) else None)
                 else if DecimalDigits r then Some (digitsValue 10 r)
                 else None)
          else None)"

definition StrUnsignedDecimalLiteral :: "string \<Rightarrow> number" where
  "StrUnsignedDecimalLiteral s =
     (if s = ''Infinity'' then PosInfinity
      else
        let ip = takeWhile isDecimalDigit s;
            r = dropWhile isDecimalDigit s;
            dot = (r \<noteq> [] \<and> hd r = CHR ''.'');
            fp = (if dot then takeWhile isDecimalDigit (tl r) else []);
            r' = (if dot then dropWhile isDecimalDigit (tl r) else r)
        in if ip = [] \<and> fp = [] then NaN
           else
             (case ExponentPart r' of
                None \<Rightarrow> NaN
              | Some e \<Rightarrow>
                  let m = (of_int (digitsValue 10 (ip @ fp)) :: rat);
                      k = e - int (length fp)
                  in if 0 \<le> k then round_double (m * 10 ^ nat k)
                     else round_double (m / 10 ^ nat (- k))))"

definition negate :: "number \<Rightarrow> number" where
  "negate n =
     (case n of
        NaN \<Rightarrow> NaN
      | PosInfinity \<Rightarrow> NegInfinity
      | NegInfinity \<Rightarrow> PosInfinity
      | NegZero \<Rightarrow> Finite 0
      | Finite x \<Rightarrow> (if x = 0 then NegZero else Finite (- x)))"

definition NonDecimalIntegerLiteral :: "string \<Rightarrow> number option" where
  "NonDecimalIntegerLiteral s =
     (case s of
        z # p # ds \<Rightarrow>
          if z = CHR ''0'' \<and> ds \<noteq> [] then
            (if p \<in> set ''bB'' \<and> list_all (isDigitOf 2) ds
               then Some (round_double (of_int (digitsValue 2 ds)))
             else if p \<in> set ''oO'' \<and> list_all (isDigitOf 8) ds
               then Some (round_double (of_int (digitsValue 8 ds)))
             else if p \<in> set ''xX'' \<and> list_all (isDigitOf 16) ds
               then Some (round_double (of_int (digitsValue 16 ds)))
             else None)
          else None
      | _ \<Rightarrow> None)"

definition Number :: "string \<Rightarrow> number" where
  "Number s =
     (let t = trim s
      in if t = [] then Finite 0
         else
           (case NonDecimalIntegerLiteral t of
              Some n \<Rightarrow> n
            | None \<Rightarrow>
                if hd t = CHR ''+'' then StrUnsignedDecimalLiteral (tl t)
                else if hd t = CHR ''-'' then negate (StrUnsignedDecimalLiteral (tl t))
                else StrUnsignedDecimalLiteral t))"

subsection \<open>\<open>orZero\<close>\<close>

definition Number_isNaN :: "jsvalue \<Rightarrow> bool" where
  "Number_isNaN v \<longleftrightarrow> v = Num NaN"

text \<open>
  \<^verbatim>\<open>if (typeof value === "string") value = Number(value);
  return Number.isNaN(value) ? 0 : value;\<close>
  \<open>Number.isNaN\<close> does not coerce, so \<open>undefined\<close> is returned as it is.
\<close>

definition orZero :: "jsvalue \<Rightarrow> jsvalue" where
  "orZero v =
     (let v' = (case v of Str s \<Rightarrow> Num (Number s) | _ \<Rightarrow> v)
      in if Number_isNaN v' then Num 0 else v')"

text \<open>
  \<open>ToNumber\<close>, applied by \<open>sum + orZero(value)\<close> to its right operand. The left operand
  is a number and \<open>orZero\<close> never returns a string, so \<open>+\<close> is always numeric addition.
\<close>

definition to_number :: "jsvalue \<Rightarrow> number" where
  "to_number v = (case v of Undefined \<Rightarrow> NaN | Num n \<Rightarrow> n | Str s \<Rightarrow> Number s)"

section \<open>Series Builder\<close>

text \<open>
  A \<open>Date\<close> is its \<open>getTime()\<close>, milliseconds since the epoch; \<open>new Date(0)\<close> is \<open>0\<close>.
  \<open>d3.timeParse("%d.%m.%Y")\<close> belongs to a library and is a parameter \<open>parseTime\<close>
  of the builders: it returns a date or \<open>null\<close>.
\<close>

type_synonym Date = int
type_synonym Timeline = "(Date \<times> jsvalue) list"
type_synonym CSV = "string list list"

text \<open>\<open>row[i]\<close>, \<open>undefined\<close> beyond the end of the row.\<close>

definition cell :: "string list \<Rightarrow> nat \<Rightarrow> string option" where
  "cell row i = (if i < length row then Some (row ! i) else None)"

definition js :: "string option \<Rightarrow> jsvalue" where
  "js c = (case c of None \<Rightarrow> Undefined | Some s \<Rightarrow> Str s)"

text \<open>
  \<^verbatim>\<open>parseTime(date) ?? new Date(0)\<close>; the parser coerces its argument to a string,
  so a missing cell is parsed as the text \<open>undefined\<close>.
\<close>

definition parseDate :: "(string \<Rightarrow> Date option) \<Rightarrow> string option \<Rightarrow> Date" where
  "parseDate parseTime date =
     (case parseTime (case date of None \<Rightarrow> ''undefined'' | Some s \<Rightarrow> s) of
        None \<Rightarrow> 0
      | Some d \<Rightarrow> d)"

text \<open>
  The operand \<open>orZero(value)\<close> that the running sum of the cases series adds for a row,
  \<open>value\<close> being the row's second cell.
\<close>

definition increment :: "string list \<Rightarrow> number" where
  "increment row = to_number (orZero (js (cell row 1)))"

text \<open>
  First variant of the cases series:
  \<^verbatim>\<open>csv.slice(1).map(([date, value], idx, arr) => [parseTime(date) ?? new Date(0),
     arr.slice(0, idx + 1).reduce((sum, [, value]) => sum + orZero(value), 0)])\<close>
\<close>

definition cases_v1 :: "(string \<Rightarrow> Date option) \<Rightarrow> CSV \<Rightarrow> Timeline" where
  "cases_v1 parseTime csv =
     (let arr = drop 1 csv
      in map (\<lambda>idx.
                (parseDate parseTime (cell (arr ! idx) 0),
                 Num (foldl (\<lambda>sum row. sum + increment row) 0 (take (idx + 1) arr))))
           [0..<length arr])"

text \<open>
  Second variant:
  \<^verbatim>\<open>csv.slice(1).reduce(([timeline, sum], [date, value]) => {
       sum += orZero(value);
       timeline.push([parseTime(date) ?? new Date(0), sum]);
       return [timeline, sum]; }, [[], 0])[0]\<close>
\<close>

definition cases_step ::
  "(string \<Rightarrow> Date option) \<Rightarrow> Timeline \<times> number \<Rightarrow> string list \<Rightarrow> Timeline \<times> number" where
  "cases_step parseTime acc row =
     (let sum = snd acc + increment row
      in (fst acc @ [(parseDate parseTime (cell row 0), Num sum)], sum))"

definition cases_v2 :: "(string \<Rightarrow> Date option) \<Rightarrow> CSV \<Rightarrow> Timeline" where
  "cases_v2 parseTime csv = fst (foldl (cases_step parseTime) ([], 0) (drop 1 csv))"

text \<open>
  The recovered and deaths series, the same in both variants:
  \<^verbatim>\<open>csv.slice(1).map(([date, value]) => [parseTime(date) ?? new Date(0), orZero(value)])\<close>
\<close>

definition series :: "(string \<Rightarrow> Date option) \<Rightarrow> CSV \<Rightarrow> Timeline" where
  "series parseTime csv =
     map (\<lambda>row. (parseDate parseTime (cell row 0), orZero (js (cell row 1)))) (drop 1 csv)"

section \<open>Array helpers of JavaScript\<close>

text \<open>\<open>Array.prototype.findIndex\<close>: the first index whose element satisfies \<open>p\<close>, or \<open>-1\<close>.\<close>

fun findIndex :: "('a \<Rightarrow> bool) \<Rightarrow> 'a list \<Rightarrow> int" where
  "findIndex p [] = - 1"
| "findIndex p (x # xs) =
     (if p x then 0 else (let i = findIndex p xs in if i < 0 then - 1 else i + 1))"

text \<open>
  \<open>Array.prototype.slice(start, end)\<close>: a negative bound counts from the end, both
  bounds are clamped to the array.
\<close>

definition slice :: "'a list \<Rightarrow> int \<Rightarrow> int \<Rightarrow> 'a list" where
  "slice xs start fin =
     (let len = int (length xs);
          k = (if start < 0 then max (len + start) 0 else min start len);
          final = (if fin < 0 then max (len + fin) 0 else min fin len)
      in take (nat (final - k)) (drop (nat k) xs))"

text \<open>\<open>String.prototype.indexOf\<close>: the first position of \<open>sub\<close> in \<open>s\<close>, or \<open>-1\<close>.\<close>

fun indexOf_at :: "string \<Rightarrow> string \<Rightarrow> nat \<Rightarrow> int" where
  "indexOf_at [] sub i = (if sub = [] then int i else - 1)"
| "indexOf_at (c # t) sub i =
     (if take (length sub) (c # t) = sub then int i else indexOf_at t sub (Suc i))"

definition indexOf :: "string \<Rightarrow> string \<Rightarrow> int" where
  "indexOf s sub = indexOf_at s sub 0"

text \<open>
  \<open>Math.max\<close> and \<open>Math.min\<close> over a spread argument list. The only call sites spread
  one time per element of \<open>csvs\<close>, which has exactly three elements there; the value
  for no argument at all (an infinity) is outside the model of times as integers.
\<close>

definition Math_max :: "int list \<Rightarrow> int" where
  "Math_max xs = fold max (tl xs) (hd xs)"

definition Math_min :: "int list \<Rightarrow> int" where
  "Math_min xs = fold min (tl xs) (hd xs)"

section \<open>Timeline Aligner and Dataset Assembler\<close>

datatype key = cases | recovered | deaths

datatype error = TypeError | ReadError | LengthsUnequal

text \<open>The object \<open>acc\<close> that \<open>acc[key] = ...\<close> fills: a key that was never set is \<open>undefined\<close>.\<close>

type_synonym Data = "key \<rightharpoonup> Timeline"

text \<open>
  \<open>result\<close> is the array of promises pushed by the entry handler; each settles with a
  pair of key and Timeline, or rejects when the entry's stream fails.
\<close>

type_synonym result = "(key \<times> (error + Timeline)) list"

text \<open>
  How the promise returned by \<open>fetchData\<close> ends. The \<open>end\<close> handler is an \<open>async\<close>
  function whose own promise nobody awaits: when it throws, \<open>fetchData\<close>'s promise is
  neither resolved nor rejected (\<open>Unsettled\<close>, with the error thrown).
\<close>

datatype outcome = Resolved Data | Rejected result | Unsettled error

text \<open>
  \<^verbatim>\<open>Math.max(...csvs.map(([, timeline]) => timeline[0][0].getTime()))\<close> and, in the
  first variant,
  \<^verbatim>\<open>Math.min(...csvs.map((timeline) => timeline[1][timeline[1].length - 1][0].getTime()))\<close>.
  Reading the first or last point of an empty Timeline throws; the aligner below makes
  that its first branch, and these bounds are the values computed otherwise.
\<close>

definition firstDate :: "(key \<times> Timeline) list \<Rightarrow> Date" where
  "firstDate csvs = Math_max (map (\<lambda>(key, timeline). fst (timeline ! 0)) csvs)"

definition lastDate_v1 :: "(key \<times> Timeline) list \<Rightarrow> Date" where
  "lastDate_v1 csvs =
     Math_min (map (\<lambda>(key, timeline). fst (timeline ! (length timeline - 1))) csvs)"

text \<open>
  Second variant, \<open>now\<close> being the clock read by \<open>new Date()\<close>:
  \<^verbatim>\<open>csvs.reduce((date, [, timeline]) =>
      timeline[timeline.length - 1][0] < date ? timeline[timeline.length - 1][0] : date,
    new Date())\<close>
\<close>

definition lastDate_v2 :: "Date \<Rightarrow> (key \<times> Timeline) list \<Rightarrow> Date" where
  "lastDate_v2 now csvs =
     foldl (\<lambda>date (key, timeline).
              if fst (timeline ! (length timeline - 1)) < date
              then fst (timeline ! (length timeline - 1)) else date)
       now csvs"

text \<open>
  The body of the reducer, first variant:
  \<^verbatim>\<open>firstIndex = timeline.findIndex(([date]) => date.getTime() >= firstDate);
  reverseLastIndex = timeline.slice(0).reverse().findIndex(([date]) => date.getTime() < lastDate);
  lastIndex = timeline.length - 1 - reverseLastIndex;
  acc[key] = timeline.slice(firstIndex, lastIndex + 1);\<close>
\<close>

definition truncate_v1 :: "Date \<Rightarrow> Date \<Rightarrow> Timeline \<Rightarrow> Timeline" where
  "truncate_v1 firstD lastD timeline =
     (let firstIndex = findIndex (\<lambda>(date, v). date \<ge> firstD) timeline;
          reverseLastIndex = findIndex (\<lambda>(date, v). date < lastD) (rev timeline);
          lastIndex = int (length timeline) - 1 - reverseLastIndex
      in slice timeline firstIndex (lastIndex + 1))"

text \<open>Second variant: the trailing comparison is \<^verbatim>\<open>date <= lastDate\<close>.\<close>

definition truncate_v2 :: "Date \<Rightarrow> Date \<Rightarrow> Timeline \<Rightarrow> Timeline" where
  "truncate_v2 firstD lastD timeline =
     (let firstIndex = findIndex (\<lambda>(date, v). date \<ge> firstD) timeline;
          reverseLastIndex = findIndex (\<lambda>(date, v). date \<le> lastD) (rev timeline);
          lastIndex = int (length timeline) - 1 - reverseLastIndex
      in slice timeline firstIndex (lastIndex + 1))"

text \<open>
  The aligner: everything between \<open>await Promise.all\<close> and \<open>resolve\<close>. \<open>timeline[0][0]\<close>
  throws a TypeError on an empty Timeline.
\<close>

definition align_v1 :: "(key \<times> Timeline) list \<Rightarrow> outcome" where
  "align_v1 csvs =
     (if list_ex (\<lambda>(key, timeline). timeline = []) csvs then Unsettled TypeError
      else
        Resolved
          (foldl (\<lambda>acc (key, timeline).
                    acc(key \<mapsto> truncate_v1 (firstDate csvs) (lastDate_v1 csvs) timeline))
             Map.empty csvs))"

definition align_v2 :: "Date \<Rightarrow> (key \<times> Timeline) list \<Rightarrow> outcome" where
  "align_v2 now csvs =
     (if list_ex (\<lambda>(key, timeline). timeline = []) csvs then Unsettled TypeError
      else
        Resolved
          (foldl (\<lambda>acc (key, timeline).
                    acc(key \<mapsto> truncate_v2 (firstDate csvs) (lastDate_v2 now csvs) timeline))
             Map.empty csvs))"

text \<open>\<open>Promise.all\<close>: all the values, or the rejection of the first promise that rejects.\<close>

fun Promise_all :: "result \<Rightarrow> error + (key \<times> Timeline) list" where
  "Promise_all [] = Inr []"
| "Promise_all ((key, Inl e) # ps) = Inl e"
| "Promise_all ((key, Inr timeline) # ps) =
     (case Promise_all ps of Inl e \<Rightarrow> Inl e | Inr csvs \<Rightarrow> Inr ((key, timeline) # csvs))"

text \<open>The \<open>end\<close> handler of the archive.\<close>

definition on_end_v1 :: "result \<Rightarrow> outcome" where
  "on_end_v1 result =
     (if length result = 3 then
        (case Promise_all result of Inl e \<Rightarrow> Unsettled e | Inr csvs \<Rightarrow> align_v1 csvs)
      else Rejected result)"

definition on_end_v2 :: "Date \<Rightarrow> result \<Rightarrow> outcome" where
  "on_end_v2 now result =
     (if length result = 3 then
        (case Promise_all result of Inl e \<Rightarrow> Unsettled e | Inr csvs \<Rightarrow> align_v2 now csvs)
      else Rejected result)"

text \<open>
  An archive entry: its name and what \<open>toCSV\<close> settles with for it (reading the stream
  is outside the model).
\<close>

record Entry =
  fileName :: string
  toCSV :: "error + CSV"

text \<open>The \<open>entry\<close> handler: entries are recognised by a substring of their name.\<close>

definition on_entry_v1 :: "(string \<Rightarrow> Date option) \<Rightarrow> result \<Rightarrow> Entry \<Rightarrow> result" where
  "on_entry_v1 parseTime result entry =
     (if indexOf (fileName entry) ''Epikurve'' \<ge> 0 then
        result @ [(cases, map_sum id (cases_v1 parseTime) (toCSV entry))]
      else if indexOf (fileName entry) ''GenesenTimeline'' \<ge> 0 then
        result @ [(recovered, map_sum id (series parseTime) (toCSV entry))]
      else if indexOf (fileName entry) ''TodesfaelleTimeline'' \<ge> 0 then
        result @ [(deaths, map_sum id (series parseTime) (toCSV entry))]
      else result)"

definition on_entry_v2 :: "(string \<Rightarrow> Date option) \<Rightarrow> result \<Rightarrow> Entry \<Rightarrow> result" where
  "on_entry_v2 parseTime result entry =
     (if indexOf (fileName entry) ''Epikurve'' \<ge> 0 then
        result @ [(cases, map_sum id (cases_v2 parseTime) (toCSV entry))]
      else
        (let key = (if indexOf (fileName entry) ''GenesenTimeline'' \<ge> 0 then Some recovered
                    else if indexOf (fileName entry) ''TodesfaelleTimeline'' \<ge> 0 then Some deaths
                    else None)
         in case key of
              None \<Rightarrow> result
            | Some k \<Rightarrow> result @ [(k, map_sum id (series parseTime) (toCSV entry))]))"

text \<open>\<open>fetchData\<close> from the enumeration of the archive's entries on.\<close>

definition fetchData_v1 :: "(string \<Rightarrow> Date option) \<Rightarrow> Entry list \<Rightarrow> outcome" where
  "fetchData_v1 parseTime entries = on_end_v1 (foldl (on_entry_v1 parseTime) [] entries)"

definition fetchData_v2 :: "(string \<Rightarrow> Date option) \<Rightarrow> Date \<Rightarrow> Entry list \<Rightarrow> outcome" where
  "fetchData_v2 parseTime now entries = on_end_v2 now (foldl (on_entry_v2 parseTime) [] entries)"

text \<open>
  The guard at the head of \<open>draw\<close>, the consumer of the Dataset:
  \<^verbatim>\<open>if (cases.length !== recovered.length || cases.length !== deaths.length)
    throw Error("lengths unequal");\<close>
  Reading \<open>length\<close> of a key that was never set throws a TypeError; \<open>||\<close> reads
  \<open>deaths.length\<close> only when the first comparison finds equal lengths.
\<close>

definition draw_guard :: "Data \<Rightarrow> error + unit" where
  "draw_guard data =
     (case data cases of
        None \<Rightarrow> Inl TypeError
      | Some c \<Rightarrow>
          (case data recovered of
             None \<Rightarrow> Inl TypeError
           | Some r \<Rightarrow>
               if length c \<noteq> length r then Inl LengthsUnequal
               else
                 (case data deaths of
                    None \<Rightarrow> Inl TypeError
                  | Some d \<Rightarrow> if length c \<noteq> length d then Inl LengthsUnequal else Inr ())))"

text \<open>An entry that the \<open>entry\<close> handler pushes a promise for, in either variant.\<close>

definition recognised :: "Entry \<Rightarrow> bool" where
  "recognised entry \<longleftrightarrow>
     indexOf (fileName entry) ''Epikurve'' \<ge> 0
     \<or> indexOf (fileName entry) ''GenesenTimeline'' \<ge> 0
     \<or> indexOf (fileName entry) ''TodesfaelleTimeline'' \<ge> 0"

section \<open>Inputs used in the examples\<close>

text \<open>A cases table with the incremental values 5, 3, 0, 7 under its header row.\<close>

definition fixture :: CSV where
  "fixture =
     [[''Datum'', ''Anzahl''], [''01.03.2020'', ''5''], [''02.03.2020'', ''3''],
      [''03.03.2020'', ''0''], [''04.03.2020'', ''7'']]"

text \<open>The same table with no value cell in its second data row.\<close>

definition gap_table :: CSV where
  "gap_table =
     [[''Datum'', ''Anzahl''], [''01.03.2020'', ''5''], [''02.03.2020''], [''03.03.2020'', ''7'']]"

text \<open>A table with the values 0.1 and 0.2.\<close>

definition decimal_table :: CSV where
  "decimal_table = [[''Datum'', ''Anzahl''], [''01.03.2020'', ''0.1''], [''02.03.2020'', ''0.2'']]"

text \<open>Day \<open>n\<close> as a time, and a Timeline with one point for each of the days \<open>a\<close> to \<open>b\<close>.\<close>

definition day :: "int \<Rightarrow> Date" where
  "day n = n * 86400000"

definition days :: "int \<Rightarrow> int \<Rightarrow> Timeline" where
  "days a b = map (\<lambda>n. (day n, Num 0)) [a..b]"

text \<open>Cases on days 1 to 10, recovered on days 3 to 12, deaths on days 1 to 8.\<close>

definition spec_example :: "(key \<times> Timeline) list" where
  "spec_example = [(cases, days 1 10), (recovered, days 3 12), (deaths, days 1 8)]"

text \<open>Cases on days 1 to 5, deaths on days 10 to 15, recovered on days 1 to 5.\<close>

definition disjoint_example :: "(key \<times> Timeline) list" where
  "disjoint_example = [(cases, days 1 5), (deaths, days 10 15), (recovered, days 1 5)]"

text \<open>An archive in which only two of the three series are present.\<close>

definition two_entries :: "Entry list" where
  "two_entries =
     [\<lparr>fileName = ''Epikurve.csv'', toCSV = Inr fixture\<rparr>,
      \<lparr>fileName = ''AllgemeinDaten.csv'', toCSV = Inr fixture\<rparr>,
      \<lparr>fileName = ''TodesfaelleTimeline.csv'', toCSV = Inr fixture\<rparr>]"

section \<open>Doubles\<close>

lemma bits_le: "n < 2 ^ k \<Longrightarrow> bits n \<le> int k"
proof (induction k arbitrary: n)
  case 0
  then show ?case by (simp add: bits.simps)
next
  case (Suc k)
  show ?case
  proof (cases "n \<le> 0")
    case True
    then show ?thesis by (simp add: bits.simps)
  next
    case False
    have "n div 2 < 2 ^ k" using Suc.prems by auto
    then have "bits (n div 2) \<le> int k" by (rule Suc.IH)
    with False show ?thesis by (subst bits.simps) simp
  qed
qed

lemma bits_one: "bits 1 = 1"
  by (simp add: bits.simps)

lemma floor_log2_int:
  assumes "0 < n" "n < 2 ^ 53"
  shows "floor_log2 (of_int n) \<le> 52"
proof -
  have "bits n \<le> int 53" using assms(2) by (rule bits_le)
  then show ?thesis
    by (simp add: floor_log2_def Let_def bits_one)
qed

lemma roundTiesToEven_one: "roundTiesToEven n 1 = n"
  by (simp add: roundTiesToEven_def)

text \<open>An integer below \<open>2 ^ 53\<close> in magnitude is a double: rounding leaves it as it is.\<close>

lemma round_double_int:
  assumes "\<bar>n\<bar> < 2 ^ 53"
  shows "round_double (of_int n) = Finite (of_int n)"
proof (cases "n = 0")
  case True
  then show ?thesis by (simp add: round_double_def)
next
  case False
  define e where "e = min 1023 (max (floor_log2 \<bar>of_int n\<bar>) (- 1022))"
  have "floor_log2 \<bar>of_int n :: rat\<bar> = floor_log2 (of_int \<bar>n\<bar>)" by simp
  also have "\<dots> \<le> 52" using False assms by (intro floor_log2_int) auto
  finally have e: "e \<le> 52" by (simp add: e_def)
  define s where "s = nat (52 - e)"
  have s: "52 - e = int s" using e by (simp add: s_def)
  have p: "pow2 (- int s) = 1 / 2 ^ s"
    by (auto simp: pow2_def)
  define m where
    "m = roundTiesToEven (fst (quotient_of (of_int n)) * 2 ^ s) (snd (quotient_of (of_int n)))"
  have m: "m = n * 2 ^ s"
    by (simp add: m_def roundTiesToEven_one)
  have r: "(of_int m :: rat) * pow2 (- int s) = of_int n"
    by (simp add: m p)
  have m0: "m \<noteq> 0" using False by (simp add: m)
  have big: "\<not> pow2 1024 \<le> \<bar>of_int n :: rat\<bar>"
  proof -
    have "\<bar>of_int n :: rat\<bar> < 2 ^ 53"
      using assms by (metis of_int_abs of_int_less_numeral_power_cancel_iff)
    also have "\<dots> \<le> 2 ^ 1024" by (rule power_increasing) simp_all
    finally show ?thesis by (simp add: pow2_def)
  qed
  have "round_double (of_int n)
          = (if pow2 1024 \<le> \<bar>of_int m * pow2 (- int s)\<bar>
             then (if (of_int n :: rat) < 0 then NegInfinity else PosInfinity)
             else if m = 0 then (if (of_int n :: rat) < 0 then NegZero else Finite 0)
             else Finite (of_int m * pow2 (- int s)))"
    using False unfolding round_double_def Let_def e_def [symmetric] s m_def
    by simp
  then show ?thesis
    using big m0 by (simp only: r if_False)
qed

lemma round_double_numeral:
  "(numeral w :: int) < 2 ^ 53 \<Longrightarrow> round_double (numeral w) = Finite (numeral w)"
  using round_double_int [of "numeral w"] by simp

lemma round_double_neg_numeral:
  "(numeral w :: int) < 2 ^ 53 \<Longrightarrow> round_double (- numeral w) = Finite (- numeral w)"
  using round_double_int [of "- numeral w"] by simp

lemma round_double_zero: "round_double 0 = Finite 0"
  by (simp add: round_double_def)

lemma round_double_one: "round_double 1 = Finite 1"
  using round_double_int [of 1] by simp

lemmas round_double_small =
  round_double_numeral round_double_neg_numeral round_double_zero round_double_one

lemma plus_Finite: "Finite x + Finite y = round_double (x + y)"
  by (simp add: plus_number_def)

lemma plus_Finite_int:
  "\<bar>a + b\<bar> < 2 ^ 53 \<Longrightarrow> Finite (of_int a) + Finite (of_int b) = Finite (of_int (a + b))"
  using round_double_int [of "a + b"] by (simp add: plus_Finite)

text \<open>
  Adding integers from the left stays exact as long as the absolute values sum to less
  than \<open>2 ^ 53\<close>.
\<close>

lemma foldl_plus_int:
  "\<bar>a\<bar> + sum_list (map abs zs) < 2 ^ 53 \<Longrightarrow>
   foldl (+) (Finite (of_int a)) (map (\<lambda>z. Finite (of_int z)) zs)
     = Finite (of_int (a + sum_list zs))"
proof (induction zs arbitrary: a)
  case Nil
  then show ?case by simp
next
  case (Cons z zs)
  have "\<bar>a + z\<bar> \<le> \<bar>a\<bar> + \<bar>z\<bar>" by simp
  moreover have "0 \<le> sum_list (map abs zs)" by (induction zs) simp_all
  ultimately have b: "\<bar>a + z\<bar> < 2 ^ 53" "\<bar>a + z\<bar> + sum_list (map abs zs) < 2 ^ 53"
    using Cons.prems by simp_all
  show ?case
    using Cons.IH [OF b(2)] by (simp add: plus_Finite_int [OF b(1)] add.assoc)
qed



lemma quotient_of_coprime_div:
  assumes "0 < d" "coprime n d"
  shows "quotient_of (of_int n / of_int d) = (n, d)"
proof -
  have "gcd n d = 1" using assms(2) by simp
  then have "Rat.normalize (n, d) = (n, d)"
    using assms(1) by (simp add: Rat.normalize_def)
  then show ?thesis
    by (simp add: Fract_of_int_quotient [symmetric] quotient_of_Fract)
qed

lemma quotient_of_tenth: "quotient_of (1 / 10) = (1, 10)"
  using quotient_of_coprime_div [of 10 1] by simp

lemma quotient_of_fifth: "quotient_of (1 / 5) = (1, 5)"
  using quotient_of_coprime_div [of 5 1] by simp

lemma quotient_of_sum:
  "quotient_of (10808639105689191 / 36028797018963968) = (10808639105689191, 36028797018963968)"
proof -
  have "coprime (10808639105689191 :: int) 2" by simp
  then have "coprime (10808639105689191 :: int) (2 ^ 55)"
    by (simp only: coprime_power_right_iff simp_thms)
  then have "coprime (10808639105689191 :: int) 36028797018963968" by simp
  from quotient_of_coprime_div [OF _ this] show ?thesis by simp
qed


lemma bits_values:
  "bits 5 = 3" "bits 10 = 4" "bits 10808639105689191 = 54" "bits 36028797018963968 = 56"
  by (simp_all add: bits.simps)

lemma floor_log2_values:
  "floor_log2 (1 / 10) = - 4" "floor_log2 (1 / 5) = - 3"
  "floor_log2 (10808639105689191 / 36028797018963968) = - 2"
  by (simp_all add: floor_log2_def quotient_of_tenth quotient_of_fifth quotient_of_sum
      bits_one bits_values pow2_def)

lemma round_double_normal:
  assumes "0 < q" and "min 1023 (max (floor_log2 q) (- 1022)) = e" and "e \<le> 52"
    and "roundTiesToEven (fst (quotient_of q) * 2 ^ nat (52 - e)) (snd (quotient_of q)) = m"
    and "0 < m" and "of_int m / 2 ^ nat (52 - e) < (2 :: rat) ^ 1024"
  shows "round_double q = Finite (of_int m / 2 ^ nat (52 - e))"
proof -
  have p: "pow2 (- (52 - e)) = 1 / 2 ^ nat (52 - e)"
    using assms(3) by (auto simp: pow2_def)
  have a: "\<bar>q\<bar> = q" using assms(1) by simp
  have q1: "pow2 1024 = 2 ^ 1024"
    by (simp add: pow2_def)
  have q2: "\<bar>of_int m * pow2 (- (52 - e))\<bar> = of_int m / 2 ^ nat (52 - e)"
    using assms(5) unfolding p by (simp add: abs_mult)
  have b: "\<not> pow2 1024 \<le> \<bar>of_int m * pow2 (- (52 - e))\<bar>"
    unfolding q1 q2 using assms(6) by (simp only: not_le)
  have "round_double q
          = (if pow2 1024 \<le> \<bar>of_int m * pow2 (- (52 - e))\<bar>
             then (if q < 0 then NegInfinity else PosInfinity)
             else if m = 0 then (if q < 0 then NegZero else Finite 0)
             else Finite (of_int m * pow2 (- (52 - e))))"
    using assms(1,3) unfolding round_double_def Let_def a assms(2) assms(4)
    by simp
  moreover have "m \<noteq> 0" using assms(5) by simp
  ultimately have "round_double q = Finite (of_int m * pow2 (- (52 - e)))"
    using b by (simp only: if_False)
  then show ?thesis
    by (simp only: p mult_1 times_divide_eq_right mult.right_neutral)
qed

lemma round_double_tenth:
  "round_double (1 / 10) = Finite (3602879701896397 / 36028797018963968)"
  using round_double_normal [of "1 / 10" "- 4" 7205759403792794]
  by (simp add: floor_log2_values quotient_of_tenth roundTiesToEven_def)

lemma round_double_fifth:
  "round_double (1 / 5) = Finite (3602879701896397 / 18014398509481984)"
  using round_double_normal [of "1 / 5" "- 3" 7205759403792794]
  by (simp add: floor_log2_values quotient_of_fifth roundTiesToEven_def)

lemma round_double_sum:
  "round_double (10808639105689191 / 36028797018963968)
     = Finite (1351079888211149 / 4503599627370496)"
  using round_double_normal [of "10808639105689191 / 36028797018963968" "- 2" 5404319552844596]
  by (simp add: floor_log2_values quotient_of_sum roundTiesToEven_def)


lemma roundTiesToEven_lower: "0 < d \<Longrightarrow> k * d \<le> n \<Longrightarrow> k \<le> roundTiesToEven n d"
proof -
  assume d: "0 < d" and k: "k * d \<le> n"
  have "k = k * d div d" using d by simp
  also have "\<dots> \<le> n div d" using k d by (rule zdiv_mono1)
  finally have "k \<le> n div d" .
  then show ?thesis
    by (simp add: roundTiesToEven_def Let_def)
qed

text \<open>From \<open>2 ^ 1024\<close> on, rounding overflows.\<close>

lemma round_double_overflow:
  assumes big: "2 ^ 1024 \<le> q"
  shows "round_double q = PosInfinity"
proof -
  obtain n d where nd: "quotient_of q = (n, d)" by (cases "quotient_of q")
  have d: "0 < d" using nd by (rule quotient_of_denom_pos)
  have q: "q = of_int n / of_int d" using nd by (rule quotient_of_div)
  have q0: "0 < q" using big by (rule less_le_trans [rotated]) simp
  define e where "e = min 1023 (max (floor_log2 \<bar>q\<bar>) (- 1022))"
  have e: "e \<le> 1023" by (simp add: e_def)
  define m where
    "m = (if 0 \<le> 52 - e then roundTiesToEven (n * 2 ^ nat (52 - e)) d
          else roundTiesToEven n (d * 2 ^ nat (- (52 - e))))"
  have nd_big: "2 ^ 1024 * d \<le> n"
  proof -
    have "(2 :: rat) ^ 1024 * of_int d \<le> of_int n"
      using big d by (simp add: q pos_le_divide_eq)
    then have "(of_int (2 ^ 1024 * d) :: rat) \<le> of_int n" by simp
    then show ?thesis by (simp only: of_int_le_iff)
  qed
  have r: "(2 :: rat) ^ 1024 \<le> of_int m * pow2 (- (52 - e))"
  proof (cases "0 \<le> 52 - e")
    case True
    define j where "j = nat (52 - e)"
    have j: "52 - e = int j" using True by (simp add: j_def)
    have "(2 ^ (1024 + j)) * d \<le> n * 2 ^ j"
      using nd_big by (simp add: power_add mult.assoc mult.commute mult.left_commute)
    then have "2 ^ (1024 + j) \<le> roundTiesToEven (n * 2 ^ j) d"
      using d by (intro roundTiesToEven_lower)
    then have "2 ^ (1024 + j) \<le> m" using True by (simp add: m_def j)
    then have "(of_int (2 ^ (1024 + j)) :: rat) \<le> of_int m" by (simp only: of_int_le_iff)
    then have "(2 :: rat) ^ 1024 * 2 ^ j \<le> of_int m" by (simp add: power_add)
    moreover have "pow2 (- (52 - e)) = 1 / 2 ^ j"
      unfolding j by (auto simp: pow2_def)
    ultimately show ?thesis by (simp add: pos_le_divide_eq)
  next
    case False
    define j where "j = nat (e - 52)"
    define i where "i = nat (1076 - e)"
    have j: "- (52 - e) = int j" "e - 52 = int j" using False by (simp_all add: j_def)
    have ij: "i + j = 1024" using e False by (simp add: i_def j_def)
    have eq: "2 ^ i * (d * 2 ^ j) = 2 ^ 1024 * d"
      by (simp add: ij [symmetric] power_add)
    have "2 ^ i * (d * 2 ^ j) \<le> n"
      unfolding eq using nd_big .
    moreover have "0 < d * 2 ^ j" using d by simp
    ultimately have "2 ^ i \<le> roundTiesToEven n (d * 2 ^ j)"
      by (intro roundTiesToEven_lower)
    then have "2 ^ i \<le> m" using False by (simp add: m_def j)
    then have "(of_int (2 ^ i) :: rat) \<le> of_int m" by (simp only: of_int_le_iff)
    then have "(2 :: rat) ^ i * 2 ^ j \<le> of_int m * 2 ^ j" by simp
    moreover have "pow2 (- (52 - e)) = 2 ^ j"
      unfolding j by (simp add: pow2_def)
    ultimately show ?thesis by (simp add: ij [symmetric] power_add)
  qed
  have "(0 :: rat) \<le> 2 ^ 1024" by simp
  then have rpos: "\<bar>of_int m * pow2 (- (52 - e))\<bar> = of_int m * pow2 (- (52 - e))"
    using r by linarith
  have q1: "pow2 1024 = 2 ^ 1024" by (simp add: pow2_def)
  have b: "pow2 1024 \<le> \<bar>of_int m * pow2 (- (52 - e))\<bar>"
    unfolding q1 rpos using r .
  have "round_double q
          = (if pow2 1024 \<le> \<bar>of_int m * pow2 (- (52 - e))\<bar>
             then (if q < 0 then NegInfinity else PosInfinity)
             else if m = 0 then (if q < 0 then NegZero else Finite 0)
             else Finite (of_int m * pow2 (- (52 - e))))"
    using q0 unfolding round_double_def Let_def e_def [symmetric] m_def nd fst_conv snd_conv
    by simp
  then show ?thesis
    using b q0 by (simp only: if_True) simp
qed

lemma round_double_overflow_numeral:
  "(2 :: rat) ^ 1024 \<le> numeral w \<Longrightarrow> round_double (numeral w) = PosInfinity"
  by (rule round_double_overflow)

section \<open>\<open>orZero\<close> and \<open>Number\<close>\<close>

lemmas Number_defs =
  Number_def trim_def isStrWhiteSpaceChar_def NonDecimalIntegerLiteral_def
  StrUnsignedDecimalLiteral_def isDecimalDigit_def ExponentPart_def digitsValue_def
  digitValue_def DecimalDigits_def negate_def

lemma orZero_Str: "orZero (Str s) = Num (if Number s = NaN then 0 else Number s)"
  by (simp add: orZero_def Number_isNaN_def)

lemma orZero_not_NaN: "orZero v \<noteq> Num NaN"
  by (cases v) (auto simp: orZero_def Number_isNaN_def zero_number_def)

lemma orZero_not_Str: "orZero v \<noteq> Str s"
  by (cases v) (auto simp: orZero_def Number_isNaN_def)

lemma orZero_Undefined: "orZero Undefined = Undefined"
  by (simp add: orZero_def Number_isNaN_def)

lemma Number_12: "Number ''12'' = Finite 12"
  by (simp add: Number_defs round_double_small)

lemma Number_minus_3: "Number ''-3'' = Finite (- 3)"
  by (simp add: Number_defs round_double_small)

lemma Number_less_5: "Number ''<5'' = NaN"
  by (simp add: Number_defs)

text \<open>Literals that are not doubles are rounded; large ones overflow; the sign of zero is kept.\<close>

lemma Number_decimals:
  "Number ''0.1'' = Finite (3602879701896397 / 36028797018963968)"
  "Number ''0.2'' = Finite (3602879701896397 / 18014398509481984)"
  by (simp_all add: Number_defs round_double_tenth round_double_fifth)

lemma Number_overflow: "Number ''1e400'' = PosInfinity" "Number ''-1e400'' = NegInfinity"
  by (simp_all add: Number_defs round_double_overflow_numeral)

lemma Number_negative_zero: "Number ''-0'' = NegZero"
  by (simp add: Number_defs round_double_small)

lemma plus_decimals:
  "Number ''0.1'' + Number ''0.2'' = Finite (1351079888211149 / 4503599627370496)"
  by (simp add: Number_decimals plus_Finite round_double_sum)

text \<open>
  C7. On every text cell \<open>orZero\<close> returns a number: the number that the text parses to,
  and \<open>0\<close> in place of \<open>NaN\<close>, which is the only substitution; the result is never \<open>NaN\<close>.
  The cell \<open>12\<close> gives 12, \<open>-3\<close> gives -3 and \<open><5\<close> gives 0.
\<close>

theorem orZero_substitutes_only_NaN:
  "orZero (Str s) = Num (if Number s = NaN then 0 else Number s)
   \<and> orZero (Str s) \<noteq> Num NaN
   \<and> orZero (Str ''12'') = Num (Finite 12)
   \<and> orZero (Str ''-3'') = Num (Finite (- 3))
   \<and> orZero (Str ''<5'') = Num 0"
  using orZero_not_NaN [of "Str s"]
  by (simp add: orZero_Str Number_12 Number_minus_3 Number_less_5)

section \<open>Series Builder\<close>

lemma increment_cell:
  "2 \<le> length row \<Longrightarrow> increment row = (if Number (row ! 1) = NaN then 0 else Number (row ! 1))"
  by (simp add: increment_def cell_def js_def orZero_Str to_number_def)

lemma increment_missing: "increment [date] = NaN"
  by (simp add: increment_def cell_def js_def orZero_Undefined to_number_def)

lemma NaN_plus: "NaN + (x :: number) = NaN"
  by (simp add: plus_number_def)

lemma plus_NaN: "(x :: number) + NaN = NaN"
  by (cases x) (simp_all add: plus_number_def)

lemma foldl_cases_step:
  "foldl (cases_step pt) (acc, s) xs =
     (acc @ map (\<lambda>idx. (parseDate pt (cell (xs ! idx) 0),
                         Num (foldl (\<lambda>sum row. sum + increment row) s (take (idx + 1) xs))))
               [0..<length xs],
      foldl (\<lambda>sum row. sum + increment row) s xs)"
proof (induction xs arbitrary: acc s)
  case Nil
  then show ?case by simp
next
  case (Cons x xs)
  have "cases_step pt (acc, s) x
          = (acc @ [(parseDate pt (cell x 0), Num (s + increment x))], s + increment x)"
    by (simp add: cases_step_def Let_def)
  then show ?case
    by (simp add: Cons.IH map_upt_Suc del: upt_Suc)
qed

lemma cases_v2_unfold:
  "cases_v2 pt csv =
     map (\<lambda>idx. (parseDate pt (cell (drop 1 csv ! idx) 0),
                  Num (foldl (\<lambda>sum row. sum + increment row) 0 (take (idx + 1) (drop 1 csv)))))
       [0..<length (drop 1 csv)]"
  by (simp add: cases_v2_def foldl_cases_step)

lemma round_double_tenth_fixed:
  "round_double (3602879701896397 / 36028797018963968)
     = Finite (3602879701896397 / 36028797018963968)"
proof -
  have "coprime (3602879701896397 :: int) 2" by simp
  then have "coprime (3602879701896397 :: int) (2 ^ 55)"
    by (simp only: coprime_power_right_iff simp_thms)
  then have "coprime (3602879701896397 :: int) 36028797018963968" by simp
  from quotient_of_coprime_div [OF _ this]
  have q: "quotient_of (3602879701896397 / 36028797018963968)
             = (3602879701896397, 36028797018963968)"
    by simp
  have b: "bits 3602879701896397 = 52"
    by (simp add: bits.simps)
  have f: "floor_log2 (3602879701896397 / 36028797018963968) = - 4"
    by (simp add: floor_log2_def q b bits_values pow2_def)
  show ?thesis
    using round_double_normal [of "3602879701896397 / 36028797018963968" "- 4" 7205759403792794]
    by (simp add: f q roundTiesToEven_def)
qed

lemma list_of_four:
  "length xs = 4 \<Longrightarrow> map f xs = [f (xs ! 0), f (xs ! 1), f (xs ! 2), f (xs ! 3)]"
  by (auto simp: eval_nat_numeral length_Suc_conv)

lemma list_of_three:
  "length xs = 3 \<Longrightarrow> map f xs = [f (xs ! 0), f (xs ! 1), f (xs ! 2)]"
  by (auto simp: eval_nat_numeral length_Suc_conv)

lemma list_of_two:
  "length xs = 2 \<Longrightarrow> map f xs = [f (xs ! 0), f (xs ! 1)]"
  by (auto simp: eval_nat_numeral length_Suc_conv)

lemma length_cases_v1: "length (cases_v1 pt csv) = length csv - 1"
  by (simp add: cases_v1_def Let_def)

lemma length_cases_v2: "length (cases_v2 pt csv) = length csv - 1"
  by (simp add: cases_v2_unfold)

lemma length_series: "length (series pt csv) = length csv - 1"
  by (simp add: series_def)

lemma dates_by_index:
  "map (\<lambda>idx. parseDate pt (cell (xs ! idx) 0)) [0..<length xs]
     = map (\<lambda>row. parseDate pt (cell row 0)) xs"
  by (rule nth_equalityI) simp_all

lemma dates_cases_v1:
  "map fst (cases_v1 pt csv) = map (\<lambda>row. parseDate pt (cell row 0)) (drop 1 csv)"
  using dates_by_index [of pt "drop 1 csv"] by (simp add: cases_v1_def Let_def comp_def)

lemma dates_cases_v2:
  "map fst (cases_v2 pt csv) = map (\<lambda>row. parseDate pt (cell row 0)) (drop 1 csv)"
  using dates_by_index [of pt "drop 1 csv"] by (simp add: cases_v2_unfold comp_def)

lemma dates_series:
  "map fst (series pt csv) = map (\<lambda>row. parseDate pt (cell row 0)) (drop 1 csv)"
  by (simp add: series_def comp_def)

text \<open>
  C9. On a table of \<open>n \<ge> 1\<close> rows each builder (the cases series in both variants, and
  the recovered and deaths series) returns a Timeline of \<open>n - 1\<close> points: the header row
  is dropped, and the points are, in order, one for each remaining row, dated by that
  row's first cell.
\<close>

theorem builder_drops_header_only:
  assumes "1 \<le> length csv"
  shows "length (cases_v1 pt csv) + 1 = length csv
         \<and> length (cases_v2 pt csv) + 1 = length csv
         \<and> length (series pt csv) + 1 = length csv
         \<and> map fst (cases_v1 pt csv) = map (\<lambda>row. parseDate pt (cell row 0)) (tl csv)
         \<and> map fst (cases_v2 pt csv) = map (\<lambda>row. parseDate pt (cell row 0)) (tl csv)
         \<and> map fst (series pt csv) = map (\<lambda>row. parseDate pt (cell row 0)) (tl csv)"
  using assms
  by (simp add: length_cases_v1 length_cases_v2 length_series
      dates_cases_v1 dates_cases_v2 dates_series drop_Suc)

theorem builder_drops_header_only_witness:
  "1 \<le> length fixture
   \<and> length (cases_v1 (\<lambda>s. None) fixture) + 1 = length fixture
   \<and> length (cases_v2 (\<lambda>s. None) fixture) + 1 = length fixture
   \<and> length (series (\<lambda>s. None) fixture) + 1 = length fixture"
  using builder_drops_header_only [of fixture "\<lambda>s. None"]
  by (simp add: fixture_def)

text \<open>
  C10. The two implementations of the cumulative cases series, the slice and reduce per
  index of the first variant and the single accumulating reduce of the second, return
  the same Timeline on every table.
\<close>

theorem cases_variants_agree: "cases_v1 pt csv = cases_v2 pt csv"
  by (simp add: cases_v1_def cases_v2_unfold Let_def)

text \<open>The running sum over rows that all have their value cell.\<close>

lemma foldl_increment:
  assumes "\<forall>row\<in>set rows. 2 \<le> length row"
  shows "foldl (\<lambda>sum row. sum + increment row) a rows
           = foldl (+) a (map (\<lambda>row. if Number (row ! 1) = NaN then 0 else Number (row ! 1)) rows)"
  using assms by (induction rows arbitrary: a) (simp_all add: increment_cell)

lemma cases_v1_value:
  "i < length csv - 1 \<Longrightarrow>
   snd (cases_v1 pt csv ! i)
     = Num (foldl (\<lambda>sum row. sum + increment row) 0 (take (Suc i) (tl csv)))"
  by (simp add: cases_v1_def Let_def drop_Suc)

lemma cases_v2_value:
  "i < length csv - 1 \<Longrightarrow>
   snd (cases_v2 pt csv ! i)
     = Num (foldl (\<lambda>sum row. sum + increment row) 0 (take (Suc i) (tl csv)))"
  by (simp add: cases_v2_unfold drop_Suc)

text \<open>
  C3. In the cases series, in both variants, when the data rows \<open>0..i\<close> all have their
  value cell, the value at index \<open>i\<close> is the sum of their zero-substituted values (the
  parsed number, with \<open>0\<close> in place of \<open>NaN\<close>), added in row order from \<open>0\<close> with the
  addition of doubles. Where these values are integers whose absolute values sum to less
  than \<open>2 ^ 53\<close>, it is their exact sum.
\<close>

theorem cases_running_sum:
  assumes i: "i < length csv - 1"
    and cells: "\<forall>row\<in>set (take (Suc i) (tl csv)). 2 \<le> length row"
  shows "snd (cases_v1 pt csv ! i)
           = Num (foldl (+) 0
                    (map (\<lambda>row. if Number (row ! 1) = NaN then 0 else Number (row ! 1))
                       (take (Suc i) (tl csv))))
       \<and> snd (cases_v2 pt csv ! i) = snd (cases_v1 pt csv ! i)
       \<and> (map (\<lambda>row. if Number (row ! 1) = NaN then 0 else Number (row ! 1))
              (take (Suc i) (tl csv)) = map (\<lambda>z. Finite (of_int z)) zs
            \<and> sum_list (map abs zs) < 2 ^ 53
          \<longrightarrow> snd (cases_v1 pt csv ! i) = Num (Finite (of_int (sum_list zs))))"
proof -
  let ?vals = "map (\<lambda>row. if Number (row ! 1) = NaN then 0 else Number (row ! 1))
                 (take (Suc i) (tl csv))"
  have v1: "snd (cases_v1 pt csv ! i) = Num (foldl (+) 0 ?vals)"
    using cases_v1_value [OF i] foldl_increment [OF cells] by simp
  have v2: "snd (cases_v2 pt csv ! i) = Num (foldl (+) 0 ?vals)"
    using cases_v2_value [OF i] foldl_increment [OF cells] by simp
  have "foldl (+) 0 ?vals = Finite (of_int (sum_list zs))"
    if "?vals = map (\<lambda>z. Finite (of_int z)) zs" "sum_list (map abs zs) < 2 ^ 53"
    using foldl_plus_int [of 0 zs] that by (simp add: zero_number_def)
  then show ?thesis
    using v1 v2 by simp
qed

text \<open>The incremental values 5, 3, 0, 7 give the cumulative values 5, 8, 8, 15.\<close>

theorem cases_running_sum_witness:
  "map snd (cases_v1 (\<lambda>s. None) fixture)
       = [Num (Finite 5), Num (Finite 8), Num (Finite 8), Num (Finite 15)]
   \<and> map snd (cases_v2 (\<lambda>s. None) fixture)
       = [Num (Finite 5), Num (Finite 8), Num (Finite 8), Num (Finite 15)]"
proof -
  let ?z = "\<lambda>row. if Number (row ! 1) = NaN then 0 else Number (row ! 1)"
  let ?F = "\<lambda>z. Finite (of_int z)"
  have len: "length (cases_v1 (\<lambda>s. None) fixture) = 4"
    "length (cases_v2 (\<lambda>s. None) fixture) = 4"
    by (simp_all add: length_cases_v1 length_cases_v2 fixture_def)
  have b: "0 < length fixture - 1" "1 < length fixture - 1" "2 < length fixture - 1"
    "3 < length fixture - 1"
    by (simp_all add: fixture_def)
  have cells: "\<forall>row\<in>set (take (Suc i) (tl fixture)). 2 \<le> length row" for i
    by (auto simp: fixture_def dest!: in_set_takeD)
  have vals: "map ?z (tl fixture) = map ?F [5, 3, 0, 7]"
    by (simp add: fixture_def Number_defs round_double_small zero_number_def)
  have pre: "map ?z (take (Suc i) (tl fixture)) = map ?F (take (Suc i) [5, 3, 0, 7])" for i
    by (simp only: take_map [symmetric] vals)
  have small: "sum_list (map abs (take (Suc i) [5, 3, 0, 7 :: int])) < 2 ^ 53"
    if "i < 4" for i
  proof -
    have "i = 0 \<or> i = 1 \<or> i = 2 \<or> i = 3" using that by auto
    then show ?thesis by (auto simp: numeral_2_eq_2 numeral_3_eq_3)
  qed
  note t0 = cases_running_sum [OF b(1) cells, of "\<lambda>s. None" "take (Suc 0) [5, 3, 0, 7]"]
  note t1 = cases_running_sum [OF b(2) cells, of "\<lambda>s. None" "take (Suc 1) [5, 3, 0, 7]"]
  note t2 = cases_running_sum [OF b(3) cells, of "\<lambda>s. None" "take (Suc 2) [5, 3, 0, 7]"]
  note t3 = cases_running_sum [OF b(4) cells, of "\<lambda>s. None" "take (Suc 3) [5, 3, 0, 7]"]
  have v: "snd (cases_v1 (\<lambda>s. None) fixture ! 0) = Num (Finite 5)"
    "snd (cases_v1 (\<lambda>s. None) fixture ! 1) = Num (Finite 8)"
    "snd (cases_v1 (\<lambda>s. None) fixture ! 2) = Num (Finite 8)"
    "snd (cases_v1 (\<lambda>s. None) fixture ! 3) = Num (Finite 15)"
    using t0 [THEN conjunct2, THEN conjunct2, THEN mp, OF conjI [OF pre small]]
      t1 [THEN conjunct2, THEN conjunct2, THEN mp, OF conjI [OF pre small]]
      t2 [THEN conjunct2, THEN conjunct2, THEN mp, OF conjI [OF pre small]]
      t3 [THEN conjunct2, THEN conjunct2, THEN mp, OF conjI [OF pre small]]
    by (simp_all add: numeral_2_eq_2 numeral_3_eq_3)
  have w: "snd (cases_v2 (\<lambda>s. None) fixture ! 0) = Num (Finite 5)"
    "snd (cases_v2 (\<lambda>s. None) fixture ! 1) = Num (Finite 8)"
    "snd (cases_v2 (\<lambda>s. None) fixture ! 2) = Num (Finite 8)"
    "snd (cases_v2 (\<lambda>s. None) fixture ! 3) = Num (Finite 15)"
    using t0 [THEN conjunct2, THEN conjunct1] t1 [THEN conjunct2, THEN conjunct1]
      t2 [THEN conjunct2, THEN conjunct1] t3 [THEN conjunct2, THEN conjunct1] v
    by simp_all
  show ?thesis
    using list_of_four [OF len(1), of snd] list_of_four [OF len(2), of snd] v w by simp
qed

text \<open>
  A data row without a value cell turns the running sum into \<open>NaN\<close> from that row on:
  the values 5, (none), 7 give 5, \<open>NaN\<close>, \<open>NaN\<close>. The values 0.1 and 0.2 give, at
  index 1, the double nearest to the sum of the two doubles, which is not their sum.
\<close>

theorem missing_cell_and_rounding_counterexample:
  "map snd (cases_v1 (\<lambda>s. None) gap_table) = [Num (Finite 5), Num NaN, Num NaN]
   \<and> map snd (cases_v2 (\<lambda>s. None) gap_table) = [Num (Finite 5), Num NaN, Num NaN]
   \<and> orZero (Str ''5'') = Num (Finite 5) \<and> orZero (Str ''7'') = Num (Finite 7)
   \<and> orZero (Str ''0.1'') = Num (Finite (3602879701896397 / 36028797018963968))
   \<and> orZero (Str ''0.2'') = Num (Finite (3602879701896397 / 18014398509481984))
   \<and> map snd (cases_v1 (\<lambda>s. None) decimal_table)
       = [Num (Finite (3602879701896397 / 36028797018963968)),
          Num (Finite (1351079888211149 / 4503599627370496))]
   \<and> map snd (cases_v2 (\<lambda>s. None) decimal_table)
       = [Num (Finite (3602879701896397 / 36028797018963968)),
          Num (Finite (1351079888211149 / 4503599627370496))]
   \<and> (3602879701896397 / 36028797018963968 + 3602879701896397 / 18014398509481984 :: rat)
       \<noteq> 1351079888211149 / 4503599627370496"
proof -
  have n: "Number ''5'' = Finite 5" "Number ''7'' = Finite 7"
    by (simp_all add: Number_defs round_double_small)
  have g: "map increment (tl gap_table) = [Finite 5, NaN, Finite 7]"
    by (simp add: gap_table_def increment_cell increment_missing n)
  have d: "map increment (tl decimal_table)
             = [Finite (3602879701896397 / 36028797018963968),
                Finite (3602879701896397 / 18014398509481984)]"
    by (simp add: decimal_table_def increment_cell Number_decimals)
  have f: "foldl (\<lambda>sum row. sum + increment row) a rows = foldl (+) a (map increment rows)"
    for a rows
    by (simp add: foldl_map)
  have lg: "length gap_table = 4" and ld: "length decimal_table = 3"
    by (simp_all add: gap_table_def decimal_table_def)
  have s: "(0 :: number) + Finite 5 = Finite 5"
    "(0 :: number) + Finite (3602879701896397 / 36028797018963968)
       = Finite (3602879701896397 / 36028797018963968)"
    "Finite (3602879701896397 / 36028797018963968) + Finite (3602879701896397 / 18014398509481984)
       = Finite (1351079888211149 / 4503599627370496)"
    using plus_decimals
    by (simp_all add: zero_number_def plus_Finite round_double_small round_double_tenth_fixed
        Number_decimals)
  have v1: "snd (cases_v1 (\<lambda>s. None) gap_table ! 0) = Num (Finite 5)"
    "snd (cases_v1 (\<lambda>s. None) gap_table ! 1) = Num NaN"
    "snd (cases_v1 (\<lambda>s. None) gap_table ! 2) = Num NaN"
    by (simp_all add: cases_v1_value lg f take_map [symmetric] g s NaN_plus plus_NaN)
  have v2: "snd (cases_v2 (\<lambda>s. None) gap_table ! 0) = Num (Finite 5)"
    "snd (cases_v2 (\<lambda>s. None) gap_table ! 1) = Num NaN"
    "snd (cases_v2 (\<lambda>s. None) gap_table ! 2) = Num NaN"
    by (simp_all add: cases_v2_value lg f take_map [symmetric] g s NaN_plus plus_NaN)
  have w1: "snd (cases_v1 (\<lambda>s. None) decimal_table ! 0)
              = Num (Finite (3602879701896397 / 36028797018963968))"
    "snd (cases_v1 (\<lambda>s. None) decimal_table ! 1)
              = Num (Finite (1351079888211149 / 4503599627370496))"
    by (simp_all add: cases_v1_value ld f take_map [symmetric] d s)
  have w2: "snd (cases_v2 (\<lambda>s. None) decimal_table ! 0)
              = Num (Finite (3602879701896397 / 36028797018963968))"
    "snd (cases_v2 (\<lambda>s. None) decimal_table ! 1)
              = Num (Finite (1351079888211149 / 4503599627370496))"
    by (simp_all add: cases_v2_value ld f take_map [symmetric] d s)
  have len: "length (cases_v1 (\<lambda>s. None) gap_table) = 3"
    "length (cases_v2 (\<lambda>s. None) gap_table) = 3"
    "length (cases_v1 (\<lambda>s. None) decimal_table) = 2"
    "length (cases_v2 (\<lambda>s. None) decimal_table) = 2"
    by (simp_all add: length_cases_v1 length_cases_v2 lg ld)
  have o: "orZero (Str ''5'') = Num (Finite 5)" "orZero (Str ''7'') = Num (Finite 7)"
    "orZero (Str ''0.1'') = Num (Finite (3602879701896397 / 36028797018963968))"
    "orZero (Str ''0.2'') = Num (Finite (3602879701896397 / 18014398509481984))"
    by (simp_all add: orZero_Str n Number_decimals)
  have r: "(3602879701896397 / 36028797018963968 + 3602879701896397 / 18014398509481984 :: rat)
       \<noteq> 1351079888211149 / 4503599627370496"
    by simp
  show ?thesis
    using list_of_three [OF len(1), of snd] list_of_three [OF len(2), of snd]
      list_of_two [OF len(3), of snd] list_of_two [OF len(4), of snd] v1 v2 w1 w2 o r
    by simp
qed

section \<open>Timeline Aligner\<close>

text \<open>
  The guard of \<open>draw\<close> on a Dataset that lacks a key: unequal lengths of cases and
  recovered are reported before \<open>deaths\<close> is read.
\<close>

lemma draw_guard_missing_key:
  "draw_guard [cases \<mapsto> days 1 2, recovered \<mapsto> days 1 1] = Inl LengthsUnequal"
  "draw_guard [cases \<mapsto> days 1 2, recovered \<mapsto> days 1 2] = Inl TypeError"
  "draw_guard [recovered \<mapsto> days 1 2, deaths \<mapsto> days 1 2] = Inl TypeError"
  by (simp_all add: draw_guard_def days_def upto.simps)

lemma findIndex_none: "\<forall>x\<in>set xs. \<not> p x \<Longrightarrow> findIndex p xs = - 1"
  by (induction xs) simp_all

lemma findIndex_append_fail:
  "\<forall>x\<in>set xs. \<not> p x \<Longrightarrow> p y \<Longrightarrow> findIndex p (xs @ y # ys) = int (length xs)"
  by (induction xs) (simp_all add: Let_def)

lemma slice_middle:
  "slice (A @ B @ C) (int (length A)) (int (length A) + int (length B)) = B"
  by (simp add: slice_def Let_def min_def)

lemma truncate_by_parts:
  assumes A: "\<forall>x\<in>set A. \<not> p x" and BC: "B @ C \<noteq> []" "p (hd (B @ C))"
    and C: "\<forall>x\<in>set C. \<not> q x" and AB: "A @ B \<noteq> []" "q (last (A @ B))"
  shows "slice (A @ B @ C) (findIndex p (A @ B @ C))
           (int (length (A @ B @ C)) - 1 - findIndex q (rev (A @ B @ C)) + 1) = B"
proof -
  obtain y ys where y: "B @ C = y # ys" "p y"
    using BC by (cases "B @ C") auto
  have f: "findIndex p (A @ B @ C) = int (length A)"
    using findIndex_append_fail [OF A y(2), of ys] y(1) by simp
  obtain z zs where z: "rev (A @ B) = z # zs" "q z"
    using AB by (cases "A @ B" rule: rev_cases) auto
  have "\<forall>x\<in>set (rev C). \<not> q x" using C by simp
  from findIndex_append_fail [OF this z(2), of zs]
  have r: "findIndex q (rev (A @ B @ C)) = int (length C)"
    using z(1) by simp
  have e: "int (length (A @ B @ C)) - 1 - int (length C) + 1 = int (length A) + int (length B)"
    by simp
  show ?thesis
    by (simp only: f r e slice_middle)
qed

lemma sorted_three_way:
  assumes "sorted (map fst t)" "P = (\<lambda>x. fst x < f)" "Q = (\<lambda>x. l < fst x)" "f \<le> l"
  shows "t = filter P t @ filter (\<lambda>x. \<not> P x \<and> \<not> Q x) t @ filter Q t"
  using assms(1)
proof (induction t)
  case Nil
  then show ?case by simp
next
  case (Cons x t)
  then have ge: "\<forall>y\<in>set t. fst x \<le> fst y" and IH: "t = filter P t @ filter (\<lambda>x. \<not> P x \<and> \<not> Q x) t @ filter Q t"
    by auto
  show ?case
  proof (cases "P x")
    case True
    then have "\<not> Q x" using assms by auto
    with True IH show ?thesis by simp
  next
    case nP: False
    then have e1: "filter P t = []" using ge assms(2) by (auto simp: filter_empty_conv)
    show ?thesis
    proof (cases "Q x")
      case True
      then have "filter (\<lambda>x. \<not> P x \<and> \<not> Q x) t = []"
        using ge assms(3) by (auto simp: filter_empty_conv)
      with True nP e1 IH show ?thesis by simp
    next
      case False
      with nP e1 IH show ?thesis by simp
    qed
  qed
qed

text \<open>
  The second variant's slice of a sorted Timeline that covers the window is exactly the
  points dated within \<open>[f, l]\<close>, both ends included.
\<close>

lemma truncate_v2_window:
  assumes srt: "sorted (map fst t)" and ne: "t \<noteq> []"
    and lo: "fst (hd t) \<le> f" and fl: "f \<le> l" and hi: "l \<le> fst (last t)"
  shows "truncate_v2 f l t = filter (\<lambda>x. f \<le> fst x \<and> fst x \<le> l) t"
proof -
  define A where "A = filter (\<lambda>x. fst x < f) t"
  define B where "B = filter (\<lambda>x. \<not> fst x < f \<and> \<not> l < fst x) t"
  define C where "C = filter (\<lambda>x. l < fst x) t"
  have t: "t = A @ B @ C"
    unfolding A_def B_def C_def using sorted_three_way [OF srt refl refl fl] .
  have B: "B = filter (\<lambda>x. f \<le> fst x \<and> fst x \<le> l) t"
    unfolding B_def by (rule filter_cong) auto
  let ?p = "\<lambda>(date, v). date \<ge> f" and ?q = "\<lambda>(date, v::jsvalue). date \<le> l"
  have 1: "\<forall>x\<in>set A. \<not> ?p x" by (auto simp: A_def)
  have 4: "\<forall>x\<in>set C. \<not> ?q x" by (auto simp: C_def)
  have "last t \<in> set t" using ne by simp
  then have "last t \<in> set (B @ C)"
    using hi fl by (auto simp: B_def C_def)
  then have 2: "B @ C \<noteq> []" by auto
  have "\<forall>x\<in>set (B @ C). ?p x"
    using fl by (auto simp: B_def C_def)
  then have 3: "?p (hd (B @ C))"
    using hd_in_set [OF 2] by (rule bspec)
  have "hd t \<in> set t" using ne by simp
  then have "hd t \<in> set (A @ B)"
    using lo fl by (auto simp: A_def B_def)
  then have 5: "A @ B \<noteq> []" by auto
  have "\<forall>x\<in>set (A @ B). ?q x"
    using fl by (auto simp: A_def B_def)
  then have 6: "?q (last (A @ B))"
    using last_in_set [OF 5] by (rule bspec)
  have "truncate_v2 f l (A @ B @ C)
          = slice (A @ B @ C) (findIndex ?p (A @ B @ C))
              (int (length (A @ B @ C)) - 1 - findIndex ?q (rev (A @ B @ C)) + 1)"
    by (simp only: truncate_v2_def Let_def)
  also have "\<dots> = B"
    by (rule truncate_by_parts [OF 1 2 3 4 5 6])
  finally have "truncate_v2 f l (A @ B @ C) = B" .
  then have "truncate_v2 f l t = B"
    by (simp only: t [symmetric])
  then show ?thesis
    by (simp only: B)
qed

text \<open>
  The first variant's slice, when \<open>f < l\<close>, is the points dated within \<open>[f, l)\<close>: the
  points dated \<open>l\<close> are left out.
\<close>

lemma truncate_v1_window:
  assumes srt: "sorted (map fst t)" and ne: "t \<noteq> []"
    and lo: "fst (hd t) \<le> f" and fl: "f < l" and hi: "l \<le> fst (last t)"
  shows "truncate_v1 f l t = filter (\<lambda>x. f \<le> fst x \<and> fst x < l) t"
proof -
  define A where "A = filter (\<lambda>x. fst x < f) t"
  define B where "B = filter (\<lambda>x. \<not> fst x < f \<and> \<not> l - 1 < fst x) t"
  define C where "C = filter (\<lambda>x. l - 1 < fst x) t"
  have "f \<le> l - 1" using fl by simp
  then have t: "t = A @ B @ C"
    unfolding A_def B_def C_def using sorted_three_way [OF srt refl refl] by blast
  have B: "B = filter (\<lambda>x. f \<le> fst x \<and> fst x < l) t"
    unfolding B_def by (rule filter_cong) auto
  let ?p = "\<lambda>(date, v). date \<ge> f" and ?q = "\<lambda>(date, v::jsvalue). date < l"
  have 1: "\<forall>x\<in>set A. \<not> ?p x" by (auto simp: A_def)
  have 4: "\<forall>x\<in>set C. \<not> ?q x" by (auto simp: C_def)
  have "last t \<in> set t" using ne by simp
  then have "last t \<in> set (B @ C)"
    using hi fl by (auto simp: B_def C_def)
  then have 2: "B @ C \<noteq> []" by auto
  have "\<forall>x\<in>set (B @ C). ?p x"
    using fl by (auto simp: B_def C_def)
  then have 3: "?p (hd (B @ C))"
    using hd_in_set [OF 2] by (rule bspec)
  have "hd t \<in> set t" using ne by simp
  then have "hd t \<in> set (A @ B)"
    using lo fl by (auto simp: A_def B_def)
  then have 5: "A @ B \<noteq> []" by auto
  have "\<forall>x\<in>set (A @ B). ?q x"
    using fl by (auto simp: A_def B_def)
  then have 6: "?q (last (A @ B))"
    using last_in_set [OF 5] by (rule bspec)
  have "truncate_v1 f l (A @ B @ C)
          = slice (A @ B @ C) (findIndex ?p (A @ B @ C))
              (int (length (A @ B @ C)) - 1 - findIndex ?q (rev (A @ B @ C)) + 1)"
    by (simp only: truncate_v1_def Let_def)
  also have "\<dots> = B"
    by (rule truncate_by_parts [OF 1 2 3 4 5 6])
  finally have "truncate_v1 f l (A @ B @ C) = B" .
  then have "truncate_v1 f l t = B"
    by (simp only: t [symmetric])
  then show ?thesis
    by (simp only: B)
qed

lemma truncate_v2_whole:
  assumes ne: "t \<noteq> []" and lo: "f \<le> fst (hd t)" and hi: "fst (last t) \<le> l"
  shows "truncate_v2 f l t = t"
proof -
  let ?p = "\<lambda>(date, v). date \<ge> f" and ?q = "\<lambda>(date, v::jsvalue). date \<le> l"
  have "slice ([] @ t @ []) (findIndex ?p ([] @ t @ []))
           (int (length ([] @ t @ [])) - 1 - findIndex ?q (rev ([] @ t @ [])) + 1) = t"
    using ne lo hi by (intro truncate_by_parts) (auto split: prod.splits)
  then have "slice t (findIndex ?p t) (int (length t) - 1 - findIndex ?q (rev t) + 1) = t"
    by (simp only: append_Nil append_Nil2)
  then show ?thesis
    by (simp only: truncate_v2_def Let_def)
qed

lemma firstDate_three:
  "firstDate [(k1, t1), (k2, t2), (k3, t3)]
     = max (fst (t3 ! 0)) (max (fst (t2 ! 0)) (fst (t1 ! 0)))"
  by (simp add: firstDate_def Math_max_def)

lemma lastDate_v1_three:
  "lastDate_v1 [(k1, t1), (k2, t2), (k3, t3)]
     = min (fst (t3 ! (length t3 - 1))) (min (fst (t2 ! (length t2 - 1))) (fst (t1 ! (length t1 - 1))))"
  by (simp add: lastDate_v1_def Math_min_def)

lemma lastDate_v2_three:
  "lastDate_v2 now [(k1, t1), (k2, t2), (k3, t3)]
     = min (fst (t3 ! (length t3 - 1))) (min (fst (t2 ! (length t2 - 1))) (min (fst (t1 ! (length t1 - 1))) now))"
  by (simp add: lastDate_v2_def min_def)

lemma align_v2_three:
  assumes "t1 \<noteq> []" "t2 \<noteq> []" "t3 \<noteq> []"
  shows "align_v2 now [(k1, t1), (k2, t2), (k3, t3)]
     = Resolved [k1 \<mapsto> truncate_v2 (firstDate [(k1, t1), (k2, t2), (k3, t3)]) (lastDate_v2 now [(k1, t1), (k2, t2), (k3, t3)]) t1,
                 k2 \<mapsto> truncate_v2 (firstDate [(k1, t1), (k2, t2), (k3, t3)]) (lastDate_v2 now [(k1, t1), (k2, t2), (k3, t3)]) t2,
                 k3 \<mapsto> truncate_v2 (firstDate [(k1, t1), (k2, t2), (k3, t3)]) (lastDate_v2 now [(k1, t1), (k2, t2), (k3, t3)]) t3]"
  using assms by (simp add: align_v2_def)

lemma align_v1_three:
  assumes "t1 \<noteq> []" "t2 \<noteq> []" "t3 \<noteq> []"
  shows "align_v1 [(k1, t1), (k2, t2), (k3, t3)]
     = Resolved [k1 \<mapsto> truncate_v1 (firstDate [(k1, t1), (k2, t2), (k3, t3)]) (lastDate_v1 [(k1, t1), (k2, t2), (k3, t3)]) t1,
                 k2 \<mapsto> truncate_v1 (firstDate [(k1, t1), (k2, t2), (k3, t3)]) (lastDate_v1 [(k1, t1), (k2, t2), (k3, t3)]) t2,
                 k3 \<mapsto> truncate_v1 (firstDate [(k1, t1), (k2, t2), (k3, t3)]) (lastDate_v1 [(k1, t1), (k2, t2), (k3, t3)]) t3]"
  using assms by (simp add: align_v1_def)

lemma filter_upt_same:
  assumes "\<And>i. P i \<Longrightarrow> a \<le> i \<and> i < b" "\<And>i. P i \<Longrightarrow> a' \<le> i \<and> i < b'"
  shows "filter P [a..<b] = filter P [a'..<b']"
proof (rule sorted_distinct_set_unique)
  show "set (filter P [a..<b]) = set (filter P [a'..<b'])"
    using assms by auto
qed (simp_all add: sorted_wrt_filter)

lemma on_end_v1_three:
  "on_end_v1 [(k1, Inr t1), (k2, Inr t2), (k3, Inr t3)] = align_v1 [(k1, t1), (k2, t2), (k3, t3)]"
  by (simp add: on_end_v1_def)

lemma on_end_v2_three:
  "on_end_v2 now [(k1, Inr t1), (k2, Inr t2), (k3, Inr t3)]
     = align_v2 now [(k1, t1), (k2, t2), (k3, t3)]"
  by (simp add: on_end_v2_def)

lemmas align_eval =
  align_v1_def align_v2_def days_def upto.simps day_def firstDate_def lastDate_v1_def
  lastDate_v2_def Math_max_def Math_min_def truncate_v1_def truncate_v2_def slice_def Let_def

lemma days_nonempty:
  "days 1 10 \<noteq> []" "days 3 12 \<noteq> []" "days 1 8 \<noteq> []" "days 1 5 \<noteq> []" "days 10 15 \<noteq> []"
  by (simp_all add: days_def upto.simps)

text \<open>
  The aligner of the second variant on three sorted, non-empty Timelines under three
  different keys, when \<open>firstDate \<le> lastDate\<close>: each key holds exactly the points of
  its Timeline dated within \<open>[firstDate, lastDate]\<close>.
\<close>

lemma align_v2_inclusive_window:
  assumes srt: "sorted (map fst t1)" "sorted (map fst t2)" "sorted (map fst t3)"
    and ne: "t1 \<noteq> []" "t2 \<noteq> []" "t3 \<noteq> []"
    and keys: "distinct [k1, k2, k3]"
    and F: "F = firstDate [(k1, t1), (k2, t2), (k3, t3)]"
    and L: "L = lastDate_v2 now [(k1, t1), (k2, t2), (k3, t3)]"
    and FL: "F \<le> L"
  shows "\<exists>data. align_v2 now [(k1, t1), (k2, t2), (k3, t3)] = Resolved data
           \<and> data k1 = Some (filter (\<lambda>p. F \<le> fst p \<and> fst p \<le> L) t1)
           \<and> data k2 = Some (filter (\<lambda>p. F \<le> fst p \<and> fst p \<le> L) t2)
           \<and> data k3 = Some (filter (\<lambda>p. F \<le> fst p \<and> fst p \<le> L) t3)"
proof -
  have lo: "fst (hd t1) \<le> F" "fst (hd t2) \<le> F" "fst (hd t3) \<le> F"
    using ne by (simp_all add: F firstDate_three hd_conv_nth le_max_iff_disj)
  have hi: "L \<le> fst (last t1)" "L \<le> fst (last t2)" "L \<le> fst (last t3)"
    using ne by (simp_all add: L lastDate_v2_three last_conv_nth min_le_iff_disj)
  have "align_v2 now [(k1, t1), (k2, t2), (k3, t3)]
          = Resolved [k1 \<mapsto> truncate_v2 F L t1, k2 \<mapsto> truncate_v2 F L t2,
                      k3 \<mapsto> truncate_v2 F L t3]"
    unfolding F L using ne by (rule align_v2_three)
  moreover have "truncate_v2 F L t1 = filter (\<lambda>p. F \<le> fst p \<and> fst p \<le> L) t1"
    using srt(1) ne(1) lo(1) FL hi(1) by (rule truncate_v2_window)
  moreover have "truncate_v2 F L t2 = filter (\<lambda>p. F \<le> fst p \<and> fst p \<le> L) t2"
    using srt(2) ne(2) lo(2) FL hi(2) by (rule truncate_v2_window)
  moreover have "truncate_v2 F L t3 = filter (\<lambda>p. F \<le> fst p \<and> fst p \<le> L) t3"
    using srt(3) ne(3) lo(3) FL hi(3) by (rule truncate_v2_window)
  ultimately show ?thesis
    using keys by auto
qed

text \<open>
  C4. For three non-empty Timelines \<open>firstDate\<close> is the maximum of the three first dates.
  \<open>lastDate\<close> is the minimum of the three last dates in the first variant; in the second
  variant it is the minimum of the three last dates and of the current time, with which
  its \<open>reduce\<close> starts.
\<close>

theorem window_bounds:
  assumes "t1 \<noteq> []" "t2 \<noteq> []" "t3 \<noteq> []"
  shows "firstDate [(k1, t1), (k2, t2), (k3, t3)] = Max {fst (hd t1), fst (hd t2), fst (hd t3)}
       \<and> lastDate_v1 [(k1, t1), (k2, t2), (k3, t3)]
           = Min {fst (last t1), fst (last t2), fst (last t3)}
       \<and> lastDate_v2 now [(k1, t1), (k2, t2), (k3, t3)]
           = Min {now, fst (last t1), fst (last t2), fst (last t3)}"
  using assms
  by (simp add: firstDate_three lastDate_v1_three lastDate_v2_three hd_conv_nth last_conv_nth
      max.commute max.left_commute min.commute min.left_commute)

theorem window_bounds_witness:
  "firstDate spec_example = day 3 \<and> lastDate_v1 spec_example = day 8
   \<and> lastDate_v2 (day 100) spec_example = day 8 \<and> lastDate_v2 (day 5) spec_example = day 5"
  using window_bounds [OF days_nonempty(1-3), of cases recovered deaths "day 100"]
    window_bounds [OF days_nonempty(1-3), of cases recovered deaths "day 5"]
  by (simp add: spec_example_def days_def upto.simps day_def)

text \<open>
  With the clock at day 5 and three series that end on days 10, 10 and 11, the second
  variant's \<open>lastDate\<close> is day 5, not the minimum of the last dates, day 10.
\<close>

theorem lastDate_v2_clock_counterexample:
  "lastDate_v2 (day 5) [(cases, days 8 10), (recovered, days 9 10), (deaths, days 8 11)] = day 5
   \<and> Min {fst (last (days 8 10)), fst (last (days 9 10)), fst (last (days 8 11))} = day 10"
  by (simp add: align_eval)

text \<open>
  C1. On the Timelines cases days 1 to 10, recovered days 3 to 12, deaths days 1 to 8 the
  window is day 3 to day 8. The first variant, whose trailing comparison is strict, cuts
  every Timeline to days 3 to 7: the points dated \<open>lastDate\<close> are lost. The second variant
  keeps days 3 to 8.
\<close>

theorem strict_comparison_drops_lastDate:
  "firstDate spec_example = day 3 \<and> lastDate_v1 spec_example = day 8
   \<and> align_v1 spec_example
       = Resolved [cases \<mapsto> days 3 7, recovered \<mapsto> days 3 7, deaths \<mapsto> days 3 7]
   \<and> align_v2 (day 100) spec_example
       = Resolved [cases \<mapsto> days 3 8, recovered \<mapsto> days 3 8, deaths \<mapsto> days 3 8]"
  by (simp add: spec_example_def align_eval)

text \<open>
  C2. The aligner has no check of the window. For three non-empty Timelines whose window
  is empty, the \<open>end\<close> handler still resolves, in both variants, with a Dataset that has
  a slice for each of the three keys.
\<close>

theorem empty_window_resolves:
  assumes "t1 \<noteq> []" "t2 \<noteq> []" "t3 \<noteq> []"
  shows "(lastDate_v2 now [(k1, t1), (k2, t2), (k3, t3)] < firstDate [(k1, t1), (k2, t2), (k3, t3)]
            \<longrightarrow> (\<exists>data. on_end_v2 now [(k1, Inr t1), (k2, Inr t2), (k3, Inr t3)] = Resolved data
                      \<and> dom data = {k1, k2, k3}))
       \<and> (lastDate_v1 [(k1, t1), (k2, t2), (k3, t3)] < firstDate [(k1, t1), (k2, t2), (k3, t3)]
            \<longrightarrow> (\<exists>data. on_end_v1 [(k1, Inr t1), (k2, Inr t2), (k3, Inr t3)] = Resolved data
                      \<and> dom data = {k1, k2, k3}))"
  using assms
  by (auto simp: on_end_v1_def on_end_v2_def align_v1_three align_v2_three)

theorem empty_window_resolves_witness:
  "lastDate_v2 (day 100) disjoint_example < firstDate disjoint_example
   \<and> lastDate_v1 disjoint_example < firstDate disjoint_example
   \<and> (\<exists>data. on_end_v2 (day 100)
                [(cases, Inr (days 1 5)), (deaths, Inr (days 10 15)), (recovered, Inr (days 1 5))]
                = Resolved data \<and> dom data = {cases, deaths, recovered})
   \<and> (\<exists>data. on_end_v1
                [(cases, Inr (days 1 5)), (deaths, Inr (days 10 15)), (recovered, Inr (days 1 5))]
                = Resolved data \<and> dom data = {cases, deaths, recovered})"
proof -
  have w: "lastDate_v2 (day 100) disjoint_example < firstDate disjoint_example"
    "lastDate_v1 disjoint_example < firstDate disjoint_example"
    by (simp_all add: disjoint_example_def align_eval)
  show ?thesis
    using empty_window_resolves
      [OF days_nonempty(4) days_nonempty(5) days_nonempty(4), of "day 100" cases deaths recovered] w
    unfolding disjoint_example_def by blast
qed

text \<open>
  On the disjoint series (window from day 10 back to day 5) the \<open>end\<close> handler resolves:
  in the second variant with slices of 1, 6 and 1 points, which the guard of \<open>draw\<close>
  then refuses; in the first variant with slices of 0, 6 and 0 points.
\<close>

theorem disjoint_series_resolve_counterexample:
  "firstDate disjoint_example = day 10 \<and> lastDate_v2 (day 100) disjoint_example = day 5
   \<and> lastDate_v1 disjoint_example = day 5
   \<and> on_end_v2 (day 100)
        [(cases, Inr (days 1 5)), (deaths, Inr (days 10 15)), (recovered, Inr (days 1 5))]
       = Resolved [cases \<mapsto> days 5 5, deaths \<mapsto> days 10 15, recovered \<mapsto> days 5 5]
   \<and> on_end_v1
        [(cases, Inr (days 1 5)), (deaths, Inr (days 10 15)), (recovered, Inr (days 1 5))]
       = Resolved [cases \<mapsto> [], deaths \<mapsto> days 10 15, recovered \<mapsto> []]
   \<and> draw_guard [cases \<mapsto> days 5 5, deaths \<mapsto> days 10 15, recovered \<mapsto> days 5 5]
       = Inl LengthsUnequal"
  by (simp add: disjoint_example_def on_end_v1_def on_end_v2_def draw_guard_def align_eval)

text \<open>
  C6. In the second variant, three non-empty Timelines with the same dates at each index,
  carried by three different keys and ending no later than the current time, come out of
  the aligner unchanged.
\<close>

theorem realign_is_identity:
  assumes ne: "t1 \<noteq> []"
    and d2: "map fst t2 = map fst t1" and d3: "map fst t3 = map fst t1"
    and clock: "fst (last t1) \<le> now"
    and keys: "distinct [k1, k2, k3]"
  shows "\<exists>data. align_v2 now [(k1, t1), (k2, t2), (k3, t3)] = Resolved data
           \<and> data k1 = Some t1 \<and> data k2 = Some t2 \<and> data k3 = Some t3"
proof -
  let ?csvs = "[(k1, t1), (k2, t2), (k3, t3)]"
  have ne2: "t2 \<noteq> []" and ne3: "t3 \<noteq> []"
    using ne d2 d3 by auto
  have h: "fst (hd t2) = fst (hd t1)" "fst (hd t3) = fst (hd t1)"
    using ne ne2 ne3 d2 d3 by (metis hd_map)+
  have l: "fst (last t2) = fst (last t1)" "fst (last t3) = fst (last t1)"
    using ne ne2 ne3 d2 d3 by (metis last_map)+
  have F: "firstDate ?csvs = fst (hd t1)"
    using ne ne2 ne3 h by (simp add: firstDate_three hd_conv_nth)
  have L: "lastDate_v2 now ?csvs = fst (last t1)"
    using ne ne2 ne3 l clock by (simp add: lastDate_v2_three last_conv_nth)
  have "truncate_v2 (firstDate ?csvs) (lastDate_v2 now ?csvs) t1 = t1"
    "truncate_v2 (firstDate ?csvs) (lastDate_v2 now ?csvs) t2 = t2"
    "truncate_v2 (firstDate ?csvs) (lastDate_v2 now ?csvs) t3 = t3"
    using ne ne2 ne3 h l unfolding F L by (simp_all add: truncate_v2_whole)
  then have "align_v2 now ?csvs = Resolved [k1 \<mapsto> t1, k2 \<mapsto> t2, k3 \<mapsto> t3]"
    using ne ne2 ne3 by (simp add: align_v2_three)
  then show ?thesis
    using keys by auto
qed

theorem realign_is_identity_witness:
  "\<exists>data. align_v2 (day 100) [(cases, days 3 8), (recovered, days 3 8), (deaths, days 3 8)]
            = Resolved data
     \<and> data cases = Some (days 3 8) \<and> data recovered = Some (days 3 8)
     \<and> data deaths = Some (days 3 8)"
proof -
  have "days 3 8 \<noteq> []" "fst (last (days 3 8)) \<le> day 100"
    by (simp_all add: days_def upto.simps day_def)
  then show ?thesis
    by (intro realign_is_identity) simp_all
qed

text \<open>
  Three aligned Timelines on days 1 to 3 lose day 3 when the clock stands at day 2, and
  in the first variant whatever the clock; on three empty Timelines the aligner throws.
\<close>

theorem realign_changes_counterexample:
  "align_v2 (day 2) [(cases, days 1 3), (recovered, days 1 3), (deaths, days 1 3)]
     = Resolved [cases \<mapsto> days 1 2, recovered \<mapsto> days 1 2, deaths \<mapsto> days 1 2]
   \<and> align_v2 (day 100) [(cases, []), (recovered, []), (deaths, [])] = Unsettled TypeError
   \<and> align_v1 [(cases, days 1 3), (recovered, days 1 3), (deaths, days 1 3)]
     = Resolved [cases \<mapsto> days 1 2, recovered \<mapsto> days 1 2, deaths \<mapsto> days 1 2]"
  by (simp add: align_eval)

section \<open>Dataset Assembler\<close>

lemma length_on_entry_v1:
  "length (on_entry_v1 pt result entry) = length result + (if recognised entry then 1 else 0)"
  by (simp add: on_entry_v1_def recognised_def)

lemma length_on_entry_v2:
  "length (on_entry_v2 pt result entry) = length result + (if recognised entry then 1 else 0)"
  by (simp add: on_entry_v2_def recognised_def Let_def)

lemma length_entries_v1:
  "length (foldl (on_entry_v1 pt) result entries)
     = length result + length (filter recognised entries)"
  by (induction entries arbitrary: result) (simp_all add: length_on_entry_v1)

lemma length_entries_v2:
  "length (foldl (on_entry_v2 pt) result entries)
     = length result + length (filter recognised entries)"
  by (induction entries arbitrary: result) (simp_all add: length_on_entry_v2)

lemma indexOf_at_bounds: "indexOf_at s sub i = - 1 \<or> int i \<le> indexOf_at s sub i"
  by (induction s sub i rule: indexOf_at.induct) auto

lemma indexOf_at_substring:
  "0 \<le> indexOf_at s sub i \<longleftrightarrow> (\<exists>a b. s = a @ sub @ b)"
proof (induction s sub i rule: indexOf_at.induct)
  case (1 sub i)
  then show ?case by auto
next
  case (2 c t sub i)
  show ?case
  proof (cases "take (length sub) (c # t) = sub")
    case True
    then have "c # t = [] @ sub @ drop (length sub) (c # t)"
      by (metis append_Nil append_take_drop_id)
    then have "\<exists>a b. c # t = a @ sub @ b" by blast
    with True show ?thesis by simp
  next
    case False
    have "(\<exists>a b. c # t = a @ sub @ b) \<longleftrightarrow> (\<exists>a b. t = a @ sub @ b)"
    proof
      assume "\<exists>a b. c # t = a @ sub @ b"
      then obtain a b where ab: "c # t = a @ sub @ b" by blast
      show "\<exists>a b. t = a @ sub @ b"
      proof (cases a)
        case Nil
        with ab have "take (length sub) (c # t) = sub" by simp
        with False show ?thesis by simp
      next
        case (Cons a' as)
        with ab have "t = as @ sub @ b" by simp
        then show ?thesis by blast
      qed
    next
      assume "\<exists>a b. t = a @ sub @ b"
      then obtain a b where "t = a @ sub @ b" by blast
      then have "c # t = (c # a) @ sub @ b" by simp
      then show "\<exists>a b. c # t = a @ sub @ b" by blast
    qed
    with False 2 show ?thesis by simp
  qed
qed

lemma indexOf_substring: "0 \<le> indexOf s sub \<longleftrightarrow> (\<exists>a b. s = a @ sub @ b)"
  by (simp add: indexOf_def indexOf_at_substring)

text \<open>
  C8. When fewer than three entries of the archive are recognised (by substring of their
  name: \<open>indexOf_substring\<close>), \<open>fetchData\<close> rejects, in both variants, with the array of
  the promises it had collected; it does not resolve with a Dataset.
\<close>

theorem fewer_than_three_rejected:
  assumes "length (filter recognised entries) < 3"
  shows "fetchData_v1 pt entries = Rejected (foldl (on_entry_v1 pt) [] entries)
       \<and> fetchData_v2 pt now entries = Rejected (foldl (on_entry_v2 pt) [] entries)
       \<and> (\<forall>data. fetchData_v1 pt entries \<noteq> Resolved data
                  \<and> fetchData_v2 pt now entries \<noteq> Resolved data)"
  using assms
  by (simp add: fetchData_v1_def fetchData_v2_def on_end_v1_def on_end_v2_def
      length_entries_v1 length_entries_v2)

theorem fewer_than_three_rejected_witness:
  "length (filter recognised two_entries) = 2
   \<and> (\<exists>result. fetchData_v1 (\<lambda>s. None) two_entries = Rejected result
         \<and> map fst result = [cases, deaths])
   \<and> (\<exists>result. fetchData_v2 (\<lambda>s. None) (day 100) two_entries = Rejected result
         \<and> map fst result = [cases, deaths])"
proof -
  have r: "map recognised two_entries = [True, False, True]"
    by (simp add: two_entries_def recognised_def indexOf_def)
  then have n: "length (filter recognised two_entries) = 2"
    by (simp add: two_entries_def)
  have k: "map fst (foldl (on_entry_v1 (\<lambda>s. None)) [] two_entries) = [cases, deaths]"
    "map fst (foldl (on_entry_v2 (\<lambda>s. None)) [] two_entries) = [cases, deaths]"
    by (simp_all add: two_entries_def on_entry_v1_def on_entry_v2_def indexOf_def)
  show ?thesis
    using fewer_than_three_rejected [of two_entries "\<lambda>s. None" "day 100"] n k by simp
qed

lemma calendar_sorted: "strict_mono (cal :: nat \<Rightarrow> int) \<Longrightarrow> sorted (map cal [a..<b])"
  by (simp add: sorted_map sorted_wrt_iff_nth_less strict_mono_less_eq)

lemma calendar_ends:
  assumes d: "map fst (t :: Timeline) = map cal [a..<a + n]" and n: "0 < n"
  shows "t \<noteq> []" "fst (hd t) = cal a" "fst (last t) = cal (a + n - 1)"
proof -
  have len: "length t = n"
    using arg_cong [OF d, of length] by simp
  then show ne: "t \<noteq> []" using n by auto
  have "fst (hd t) = hd (map fst t)" using ne by (simp add: hd_map)
  also have "\<dots> = cal a" using n by (simp add: d hd_map)
  finally show "fst (hd t) = cal a" .
  have "fst (last t) = last (map fst t)" using ne by (simp add: last_map)
  also have "\<dots> = cal (a + n - 1)" using n by (simp add: d last_map)
  finally show "fst (last t) = cal (a + n - 1)" .
qed

lemma window_dates_v2:
  assumes cal: "strict_mono cal" and d: "map fst (t :: Timeline) = map cal [a..<a + n]"
    and n: "0 < n" and lo: "cal a \<le> F" and FL: "F \<le> L" and hi: "L \<le> cal (a + n - 1)"
  shows "map fst (truncate_v2 F L t) = map cal (filter (\<lambda>i. F \<le> cal i \<and> cal i \<le> L) [a..<a + n])"
proof -
  note e = calendar_ends [OF d n]
  have s: "sorted (map fst t)"
    unfolding d by (rule calendar_sorted [OF cal])
  have "truncate_v2 F L t = filter (\<lambda>x. F \<le> fst x \<and> fst x \<le> L) t"
    using s e lo FL hi by (intro truncate_v2_window) simp_all
  then have "map fst (truncate_v2 F L t) = filter (\<lambda>x. F \<le> x \<and> x \<le> L) (map fst t)"
    by (simp add: filter_map comp_def)
  then show ?thesis
    by (simp add: d filter_map comp_def)
qed

lemma window_dates_v1:
  assumes cal: "strict_mono cal" and d: "map fst (t :: Timeline) = map cal [a..<a + n]"
    and n: "0 < n" and lo: "cal a \<le> F" and FL: "F < L" and hi: "L \<le> cal (a + n - 1)"
  shows "map fst (truncate_v1 F L t) = map cal (filter (\<lambda>i. F \<le> cal i \<and> cal i < L) [a..<a + n])"
proof -
  note e = calendar_ends [OF d n]
  have s: "sorted (map fst t)"
    unfolding d by (rule calendar_sorted [OF cal])
  have "truncate_v1 F L t = filter (\<lambda>x. F \<le> fst x \<and> fst x < L) t"
    using s e lo FL hi by (intro truncate_v1_window) simp_all
  then have "map fst (truncate_v1 F L t) = filter (\<lambda>x. F \<le> x \<and> x < L) (map fst t)"
    by (simp add: filter_map comp_def)
  then show ?thesis
    by (simp add: d filter_map comp_def)
qed

lemma window_indices:
  assumes cal: "strict_mono (cal :: nat \<Rightarrow> int)" and n: "0 < n"
    and lo: "cal a \<le> F" and hi: "L \<le> cal (a + n - 1)"
    and i: "F \<le> cal i" "cal i \<le> L"
  shows "a \<le> i \<and> i < a + n"
proof -
  have "cal a \<le> cal i" using lo i by simp
  then have 1: "a \<le> i" using cal by (simp add: strict_mono_less_eq)
  have "cal i \<le> cal (a + n - 1)" using hi i by simp
  then have "i \<le> a + n - 1" using cal by (simp add: strict_mono_less_eq)
  with n 1 show ?thesis by simp
qed

lemma key_exhaust: "distinct [k1, k2, k3] \<Longrightarrow> (k :: key) = k1 \<or> k = k2 \<or> k = k3"
  by (cases k; cases k1; cases k2; cases k3) simp_all

lemma same_dates_everywhere:
  assumes keys: "distinct [k1, k2, k3]"
    and s: "map fst s1 = D" "map fst s2 = D" "map fst s3 = D"
  shows "\<exists>c r d. [k1 \<mapsto> s1, k2 \<mapsto> s2, k3 \<mapsto> s3] cases = Some c
           \<and> [k1 \<mapsto> s1, k2 \<mapsto> s2, k3 \<mapsto> (s3 :: Timeline)] recovered = Some r
           \<and> [k1 \<mapsto> s1, k2 \<mapsto> s2, k3 \<mapsto> s3] deaths = Some d
           \<and> length c = length r \<and> length c = length d
           \<and> map fst c = map fst r \<and> map fst c = map fst d
           \<and> draw_guard [k1 \<mapsto> s1, k2 \<mapsto> s2, k3 \<mapsto> s3] = Inr ()"
proof -
  let ?m = "[k1 \<mapsto> s1, k2 \<mapsto> s2, k3 \<mapsto> s3]"
  have all: "\<exists>x. ?m k = Some x \<and> map fst x = D" for k
    using key_exhaust [OF keys, of k] keys s by auto
  obtain c r d where c: "?m cases = Some c" "map fst c = D"
    and r: "?m recovered = Some r" "map fst r = D"
    and d: "?m deaths = Some d" "map fst d = D"
    using all by blast
  have l: "length c = length D" "length r = length D" "length d = length D"
    using c(2) r(2) d(2) by (metis length_map)+
  have "draw_guard ?m = Inr ()"
    using c(1) r(1) d(1) l by (simp add: draw_guard_def)
  then show ?thesis
    using c r d l by simp
qed

text \<open>
  C5. Let three Timelines carry the three keys and have one point per calendar day each
  (their dates are consecutive values of one strictly increasing calendar \<open>cal\<close>). When
  the window is not empty (\<open>firstDate \<le> lastDate\<close> in the second variant; \<open>firstDate <
  lastDate\<close> in the first), the \<open>end\<close> handler resolves with a Dataset whose cases,
  recovered and deaths Timelines have the same length and the same date at each index,
  and the guard of \<open>draw\<close> accepts it.
\<close>

theorem common_window_aligned:
  assumes cal: "strict_mono cal"
    and d1: "map fst t1 = map cal [a1..<a1 + n1]" and n1: "0 < n1"
    and d2: "map fst t2 = map cal [a2..<a2 + n2]" and n2: "0 < n2"
    and d3: "map fst t3 = map cal [a3..<a3 + n3]" and n3: "0 < n3"
    and keys: "distinct [k1, k2, k3]"
  shows "(firstDate [(k1, t1), (k2, t2), (k3, t3)] \<le> lastDate_v2 now [(k1, t1), (k2, t2), (k3, t3)]
          \<longrightarrow> (\<exists>data c r d. on_end_v2 now [(k1, Inr t1), (k2, Inr t2), (k3, Inr t3)] = Resolved data
                 \<and> data cases = Some c \<and> data recovered = Some r \<and> data deaths = Some d
                 \<and> length c = length r \<and> length c = length d
                 \<and> map fst c = map fst r \<and> map fst c = map fst d
                 \<and> draw_guard data = Inr ()))
       \<and> (firstDate [(k1, t1), (k2, t2), (k3, t3)] < lastDate_v1 [(k1, t1), (k2, t2), (k3, t3)]
          \<longrightarrow> (\<exists>data c r d. on_end_v1 [(k1, Inr t1), (k2, Inr t2), (k3, Inr t3)] = Resolved data
                 \<and> data cases = Some c \<and> data recovered = Some r \<and> data deaths = Some d
                 \<and> length c = length r \<and> length c = length d
                 \<and> map fst c = map fst r \<and> map fst c = map fst d
                 \<and> draw_guard data = Inr ()))"
proof (intro conjI impI)
  let ?csvs = "[(k1, t1), (k2, t2), (k3, t3)]"
  note e1 = calendar_ends [OF d1 n1] and e2 = calendar_ends [OF d2 n2]
    and e3 = calendar_ends [OF d3 n3]
  define F where "F = firstDate ?csvs"
  have lo: "cal a1 \<le> F" "cal a2 \<le> F" "cal a3 \<le> F"
    using e1 e2 e3 by (simp_all add: F_def firstDate_three hd_conv_nth le_max_iff_disj)
  {
    define L where "L = lastDate_v2 now ?csvs"
    assume "firstDate ?csvs \<le> lastDate_v2 now ?csvs"
    then have FL: "F \<le> L" by (simp add: F_def L_def)
    have hi: "L \<le> cal (a1 + n1 - 1)" "L \<le> cal (a2 + n2 - 1)" "L \<le> cal (a3 + n3 - 1)"
      using e1 e2 e3 by (simp_all add: L_def lastDate_v2_three last_conv_nth min_le_iff_disj)
    let ?P = "\<lambda>i. F \<le> cal i \<and> cal i \<le> L"
    define D where "D = map cal (filter ?P [a1..<a1 + n1])"
    have f2: "filter ?P [a2..<a2 + n2] = filter ?P [a1..<a1 + n1]"
      using window_indices [OF cal n2 lo(2) hi(2)] window_indices [OF cal n1 lo(1) hi(1)]
      by (intro filter_upt_same) (meson less_imp_le)+
    have f3: "filter ?P [a3..<a3 + n3] = filter ?P [a1..<a1 + n1]"
      using window_indices [OF cal n3 lo(3) hi(3)] window_indices [OF cal n1 lo(1) hi(1)]
      by (intro filter_upt_same) (meson less_imp_le)+
    have s: "map fst (truncate_v2 F L t1) = D" "map fst (truncate_v2 F L t2) = D"
      "map fst (truncate_v2 F L t3) = D"
      using window_dates_v2 [OF cal d1 n1 lo(1) FL hi(1)]
        window_dates_v2 [OF cal d2 n2 lo(2) FL hi(2)]
        window_dates_v2 [OF cal d3 n3 lo(3) FL hi(3)]
      by (simp_all add: D_def f2 f3)
    define m where
      "m = [k1 \<mapsto> truncate_v2 F L t1, k2 \<mapsto> truncate_v2 F L t2, k3 \<mapsto> truncate_v2 F L t3]"
    have "align_v2 now ?csvs = Resolved m"
      unfolding F_def L_def m_def using e1(1) e2(1) e3(1) by (rule align_v2_three)
    then have a: "on_end_v2 now [(k1, Inr t1), (k2, Inr t2), (k3, Inr t3)] = Resolved m"
      by (simp only: on_end_v2_three)
    obtain c r d where "m cases = Some c" "m recovered = Some r" "m deaths = Some d"
      "length c = length r" "length c = length d"
      "map fst c = map fst r" "map fst c = map fst d" "draw_guard m = Inr ()"
      using same_dates_everywhere [OF keys s] unfolding m_def by blast
    with a show "\<exists>data c r d.
        on_end_v2 now [(k1, Inr t1), (k2, Inr t2), (k3, Inr t3)] = Resolved data
        \<and> data cases = Some c \<and> data recovered = Some r \<and> data deaths = Some d
        \<and> length c = length r \<and> length c = length d
        \<and> map fst c = map fst r \<and> map fst c = map fst d
        \<and> draw_guard data = Inr ()"
      by blast
  }
  {
    define L where "L = lastDate_v1 ?csvs"
    assume "firstDate ?csvs < lastDate_v1 ?csvs"
    then have FL: "F < L" by (simp add: F_def L_def)
    have hi: "L \<le> cal (a1 + n1 - 1)" "L \<le> cal (a2 + n2 - 1)" "L \<le> cal (a3 + n3 - 1)"
      using e1 e2 e3 by (simp_all add: L_def lastDate_v1_three last_conv_nth min_le_iff_disj)
    let ?P = "\<lambda>i. F \<le> cal i \<and> cal i < L"
    define D where "D = map cal (filter ?P [a1..<a1 + n1])"
    have f2: "filter ?P [a2..<a2 + n2] = filter ?P [a1..<a1 + n1]"
      using window_indices [OF cal n2 lo(2) hi(2)] window_indices [OF cal n1 lo(1) hi(1)]
      by (intro filter_upt_same) (meson less_imp_le)+
    have f3: "filter ?P [a3..<a3 + n3] = filter ?P [a1..<a1 + n1]"
      using window_indices [OF cal n3 lo(3) hi(3)] window_indices [OF cal n1 lo(1) hi(1)]
      by (intro filter_upt_same) (meson less_imp_le)+
    have s: "map fst (truncate_v1 F L t1) = D" "map fst (truncate_v1 F L t2) = D"
      "map fst (truncate_v1 F L t3) = D"
      using window_dates_v1 [OF cal d1 n1 lo(1) FL hi(1)]
        window_dates_v1 [OF cal d2 n2 lo(2) FL hi(2)]
        window_dates_v1 [OF cal d3 n3 lo(3) FL hi(3)]
      by (simp_all add: D_def f2 f3)
    define m where
      "m = [k1 \<mapsto> truncate_v1 F L t1, k2 \<mapsto> truncate_v1 F L t2, k3 \<mapsto> truncate_v1 F L t3]"
    have "align_v1 ?csvs = Resolved m"
      unfolding F_def L_def m_def using e1(1) e2(1) e3(1) by (rule align_v1_three)
    then have a: "on_end_v1 [(k1, Inr t1), (k2, Inr t2), (k3, Inr t3)] = Resolved m"
      by (simp only: on_end_v1_three)
    obtain c r d where "m cases = Some c" "m recovered = Some r" "m deaths = Some d"
      "length c = length r" "length c = length d"
      "map fst c = map fst r" "map fst c = map fst d" "draw_guard m = Inr ()"
      using same_dates_everywhere [OF keys s] unfolding m_def by blast
    with a show "\<exists>data c r d.
        on_end_v1 [(k1, Inr t1), (k2, Inr t2), (k3, Inr t3)] = Resolved data
        \<and> data cases = Some c \<and> data recovered = Some r \<and> data deaths = Some d
        \<and> length c = length r \<and> length c = length d
        \<and> map fst c = map fst r \<and> map fst c = map fst d
        \<and> draw_guard data = Inr ()"
      by blast
  }
qed

theorem common_window_aligned_witness:
  "firstDate spec_example \<le> lastDate_v2 (day 100) spec_example
   \<and> firstDate spec_example < lastDate_v1 spec_example
   \<and> (\<exists>data c r d.
         on_end_v2 (day 100)
           [(cases, Inr (days 1 10)), (recovered, Inr (days 3 12)), (deaths, Inr (days 1 8))]
           = Resolved data
         \<and> data cases = Some c \<and> data recovered = Some r \<and> data deaths = Some d
         \<and> length c = length r \<and> length c = length d
         \<and> map fst c = map fst r \<and> map fst c = map fst d
         \<and> draw_guard data = Inr ())
   \<and> (\<exists>data c r d.
         on_end_v1
           [(cases, Inr (days 1 10)), (recovered, Inr (days 3 12)), (deaths, Inr (days 1 8))]
           = Resolved data
         \<and> data cases = Some c \<and> data recovered = Some r \<and> data deaths = Some d
         \<and> length c = length r \<and> length c = length d
         \<and> map fst c = map fst r \<and> map fst c = map fst d
         \<and> draw_guard data = Inr ())"
proof -
  let ?cal = "\<lambda>n. day (int n)"
  have cal: "strict_mono ?cal"
    by (simp add: strict_mono_def day_def)
  have d: "map fst (days 1 10) = map ?cal [1..<1 + 10]"
    "map fst (days 3 12) = map ?cal [3..<3 + 10]"
    "map fst (days 1 8) = map ?cal [1..<1 + 8]"
    by (simp_all add: days_def upto.simps comp_def upt_rec)
  have w: "firstDate spec_example \<le> lastDate_v2 (day 100) spec_example"
    "firstDate spec_example < lastDate_v1 spec_example"
    by (simp_all add: spec_example_def align_eval)
  show ?thesis
    using common_window_aligned [OF cal d(1) _ d(2) _ d(3), of cases recovered deaths "day 100"] w
    unfolding spec_example_def by simp
qed

text \<open>
  Cases and deaths on day 1 only, recovered on day 10 only: the window is empty, the
  \<open>end\<close> handler resolves in both variants with the three Timelines as they are, the
  guard of \<open>draw\<close> accepts the Dataset (three Timelines of one point), and the dates at
  index 0 differ.
\<close>

theorem misaligned_dataset_counterexample:
  "on_end_v2 (day 100) [(cases, Inr (days 1 1)), (recovered, Inr (days 10 10)), (deaths, Inr (days 1 1))]
     = Resolved [cases \<mapsto> days 1 1, recovered \<mapsto> days 10 10, deaths \<mapsto> days 1 1]
   \<and> on_end_v1 [(cases, Inr (days 1 1)), (recovered, Inr (days 10 10)), (deaths, Inr (days 1 1))]
     = Resolved [cases \<mapsto> days 1 1, recovered \<mapsto> days 10 10, deaths \<mapsto> days 1 1]
   \<and> draw_guard [cases \<mapsto> days 1 1, recovered \<mapsto> days 10 10, deaths \<mapsto> days 1 1] = Inr ()
   \<and> map fst (days 1 1) \<noteq> map fst (days 10 10)"
  by (simp add: on_end_v1_def on_end_v2_def draw_guard_def align_eval)

end
